theory Spec2Isabelle
  imports Complex_Main "HOL-Library.Word"
begin

section \<open>The sample buffer and the errors of the audio processor\<close>

text \<open>
  A sound is the dictionary \<^verbatim>\<open>{'rate': ..., 'left': [...], 'right': [...]}\<close> of
  \<^verbatim>\<open>audioprocessor.py\<close>. The three keys become the fields of a record. The
  amplitudes are Python floats; they are read here as real numbers, and the arithmetic
  that only produces amplitudes (the sums, differences and products of samples) is exact.
  Where a float decides an integer or an exception (the product that \<^verbatim>\<open>round\<close> or
  \<^verbatim>\<open>int\<close> is applied to, the power that may overflow) the model rounds to a double
  as Python does; see \<open>to_double\<close> below. Nothing in the record forces the two channels to
  have the same length: the functions below index the right channel by positions of the
  left one, and the model keeps the \<^verbatim>\<open>IndexError\<close> this raises.
\<close>

record buffer =
  rate :: int
  left :: "real list"
  right :: "real list"

datatype error =
    AssertionError string
  | IndexError
  | ZeroDivisionError
  | OverflowError
  | StructError
  | WaveError
  | FileNotFoundError

text \<open>Sequencing of computations that may raise: the first exception ends the run.\<close>

definition bind_err :: "error + 'a \<Rightarrow> ('a \<Rightarrow> error + 'b) \<Rightarrow> error + 'b" where
  "bind_err m f = (case m of Inl e \<Rightarrow> Inl e | Inr x \<Rightarrow> f x)"

text \<open>
  Python's \<^verbatim>\<open>xs[i]\<close> for an integer \<open>i\<close>: a negative index counts from the end, and an
  index outside the list raises.
\<close>

definition py_index :: "'a list \<Rightarrow> int \<Rightarrow> error + 'a" where
  "py_index xs i =
     (if i < - int (length xs) \<or> int (length xs) \<le> i then Inl IndexError
      else if i < 0 then Inr (xs ! nat (i + int (length xs)))
      else Inr (xs ! nat i))"

text \<open>Python's true division \<^verbatim>\<open>a / b\<close> of two integers.\<close>

definition py_truediv :: "int \<Rightarrow> int \<Rightarrow> error + real" where
  "py_truediv a b =
     (case b = 0 of True \<Rightarrow> Inl ZeroDivisionError | False \<Rightarrow> Inr (real_of_int a / real_of_int b))"

text \<open>
  Python's \<^verbatim>\<open>round(x)\<close> with one argument rounds to the nearest integer and sends a
  tie to the even neighbour; \<^verbatim>\<open>int(x)\<close> drops the fractional part, that is, it
  truncates towards zero.
\<close>

definition py_round :: "real \<Rightarrow> int" where
  "py_round x =
     (let f = \<lfloor>x\<rfloor>; d = x - real_of_int f
      in if d < 1 / 2 then f else if 1 / 2 < d then f + 1 else if even f then f else f + 1)"

definition py_int :: "real \<Rightarrow> int" where
  "py_int x = (if 0 \<le> x then \<lfloor>x\<rfloor> else \<lceil>x\<rceil>)"

subsection \<open>Python floats\<close>

text \<open>
  A Python float is an IEEE 754 double: zero, or \<open>\<plusminus> m * 2 ^ (e - 52)\<close> with an integer
  \<open>m < 2 ^ 53\<close> and \<open>-1022 \<le> e \<le> 1023\<close>, where \<open>2 ^ 52 \<le> m\<close> unless \<open>e = -1022\<close>. The
  result of an arithmetic operation is the exact result rounded to the nearest such
  number, a tie going to the even \<open>m\<close>. \<open>double_exponent x\<close> is the \<open>e\<close> of the doubles
  around \<open>x\<close>, \<open>double_ulp x\<close> their spacing, and \<open>to_double x\<close> the rounded value, with no
  bound on \<open>e\<close> from above; \<open>overflows x\<close> says that this value lies beyond the largest
  double, where an operation gives an infinity or raises.
\<close>

definition double_exponent :: "real \<Rightarrow> int" where
  "double_exponent x = max (- 1022) \<lfloor>log 2 \<bar>x\<bar>\<rfloor>"

definition double_ulp :: "real \<Rightarrow> real" where
  "double_ulp x = 2 powi (double_exponent x - 52)"

definition to_double :: "real \<Rightarrow> real" where
  "to_double x = (if x = 0 then 0 else real_of_int (py_round (x / double_ulp x)) * double_ulp x)"

definition overflows :: "real \<Rightarrow> bool" where
  "overflows x = (2 ^ 1024 \<le> \<bar>to_double x\<bar>)"

text \<open>
  The operations of the source whose float result is not a sample. \<^verbatim>\<open>x * n\<close> with an
  integer \<open>n\<close> first converts \<open>n\<close> (\<open>py_float\<close>), which raises for an integer beyond the
  doubles; the product of two floats never raises but may be an infinity, written
  \<open>None\<close>; \<^verbatim>\<open>round(x)\<close> raises on an infinity; \<^verbatim>\<open>x ** k\<close> raises when the power
  overflows. The power otherwise multiplies samples, so its value is kept exact.
\<close>

definition py_float :: "int \<Rightarrow> error + real" where
  "py_float n =
     (if overflows (real_of_int n) then Inl OverflowError else Inr (to_double (real_of_int n)))"

definition py_mul :: "real \<Rightarrow> real \<Rightarrow> real option" where
  "py_mul x y = (if overflows (x * y) then None else Some (to_double (x * y)))"

definition py_round_float :: "real option \<Rightarrow> error + int" where
  "py_round_float v = (case v of None \<Rightarrow> Inl OverflowError | Some x \<Rightarrow> Inr (py_round x))"

definition py_pow :: "real \<Rightarrow> nat \<Rightarrow> error + real" where
  "py_pow x k = (if overflows (x ^ k) then Inl OverflowError else Inr (x ^ k))"

section \<open>Edit functions\<close>

subsection \<open>backwards\<close>

text \<open>\<^verbatim>\<open>xs[::-1]\<close> is the list in reverse order.\<close>

definition backwards :: "buffer \<Rightarrow> buffer" where
  "backwards sound = \<lparr>rate = rate sound, left = rev (left sound), right = rev (right sound)\<rparr>"

text \<open>
  Python's \<^verbatim>\<open>xs[i] = v\<close> for a position \<open>i\<close> counted from the front: it raises outside the
  list. \<^verbatim>\<open>range(n)\<close> is the list of the positions \<open>0, ..., n - 1\<close>, and a
  \<^verbatim>\<open>for\<close> loop over it is a recursion over that list.
\<close>

definition py_setitem :: "'a list \<Rightarrow> nat \<Rightarrow> 'a \<Rightarrow> error + 'a list" where
  "py_setitem xs i v = (if i < length xs then Inr (xs[i := v]) else Inl IndexError)"

definition py_range :: "nat \<Rightarrow> nat list" where
  "py_range n = [0..<n]"

subsection \<open>mix\<close>

fun mix_loop ::
  "buffer \<Rightarrow> buffer \<Rightarrow> real \<Rightarrow> nat list \<Rightarrow> real list \<times> real list \<Rightarrow> error + real list \<times> real list"
where
  "mix_loop sound1 sound2 p [] (l, r) = Inr (l, r)"
| "mix_loop sound1 sound2 p (i # rest) (l, r) =
     bind_err (py_index (left sound1) (int i)) (\<lambda>a1.
     bind_err (py_index (left sound2) (int i)) (\<lambda>a2.
     bind_err (py_index (right sound1) (int i)) (\<lambda>b1.
     bind_err (py_index (right sound2) (int i)) (\<lambda>b2.
     mix_loop sound1 sound2 p rest
       (l @ [p * a1 + (1 - p) * a2], r @ [p * b1 + (1 - p) * b2])))))"

definition mix :: "buffer \<Rightarrow> buffer \<Rightarrow> real \<Rightarrow> error + buffer" where
  "mix sound1 sound2 p =
     (if rate sound1 \<noteq> rate sound2 then Inl (AssertionError ''Sound rates must be the same'')
      else if \<not> (0 \<le> p \<and> p \<le> 1)
        then Inl (AssertionError ''Proportion must be a real number between 0 and 1'')
      else
        let samples1 = length (left sound1);
            samples2 = length (left sound2);
            samples = (if samples1 \<le> samples2 then samples1 else samples2)
        in bind_err (mix_loop sound1 sound2 p (py_range samples) ([], [])) (\<lambda>(l, r).
           Inr \<lparr>rate = rate sound1, left = l, right = r\<rparr>))"

subsection \<open>multiply\_list and echo\<close>

fun multiply_list :: "real list \<Rightarrow> real \<Rightarrow> real list" where
  "multiply_list [] number = []"
| "multiply_list (i # input_list) number = i * number # multiply_list input_list number"

text \<open>
  The inner \<^verbatim>\<open>for\<close> loop of \<open>echo\<close>: at every position \<open>i\<close> from the threshold
  \<open>sample_delay * (1 + num)\<close> on, the echo's sample is added in place to both channels.
\<close>

fun echo_inner ::
  "int \<Rightarrow> nat \<Rightarrow> real list \<Rightarrow> real list \<Rightarrow> nat list \<Rightarrow> real list \<times> real list
   \<Rightarrow> error + real list \<times> real list"
where
  "echo_inner sample_delay num left_echo right_echo [] (l, r) = Inr (l, r)"
| "echo_inner sample_delay num left_echo right_echo (i # rest) (l, r) =
     (if sample_delay * (1 + int num) \<le> int i then
        bind_err (py_index l (int i)) (\<lambda>a.
        bind_err (py_index left_echo (int i - sample_delay * (1 + int num))) (\<lambda>a'.
        bind_err (py_setitem l i (a + a')) (\<lambda>l'.
        bind_err (py_index r (int i)) (\<lambda>b.
        bind_err (py_index right_echo (int i - sample_delay * (1 + int num))) (\<lambda>b'.
        bind_err (py_setitem r i (b + b')) (\<lambda>r'.
        echo_inner sample_delay num left_echo right_echo rest (l', r')))))))
      else echo_inner sample_delay num left_echo right_echo rest (l, r))"

text \<open>
  The \<^verbatim>\<open>while num < num_echos\<close> loop. \<^verbatim>\<open>[0]*k\<close> is the empty list for a negative
  \<open>k\<close>, which \<open>replicate (nat k)\<close> is too. The power \<^verbatim>\<open>scale**(1 + num)\<close> is taken
  once for each channel, as the source does.
\<close>

function echo_loop ::
  "buffer \<Rightarrow> int \<Rightarrow> int \<Rightarrow> real \<Rightarrow> nat \<Rightarrow> real list \<times> real list \<Rightarrow> error + real list \<times> real list"
where
  "echo_loop sound num_echos sample_delay scale num (l, r) =
     (if int num < num_echos then
        let l1 = l @ replicate (nat sample_delay) 0;
            r1 = r @ replicate (nat sample_delay) 0
        in bind_err (py_pow scale (1 + num)) (\<lambda>left_scale.
           let left_echo = multiply_list (left sound) left_scale
           in bind_err (py_pow scale (1 + num)) (\<lambda>right_scale.
              let right_echo = multiply_list (right sound) right_scale
              in bind_err
                   (echo_inner sample_delay num left_echo right_echo (py_range (length l1)) (l1, r1))
                   (\<lambda>lr. echo_loop sound num_echos sample_delay scale (num + 1) lr)))
      else Inr (l, r))"
  by pat_completeness auto
termination
  by (relation "measure (\<lambda>(sound, num_echos, sample_delay, scale, num, lr). nat (num_echos - int num))")
    auto

definition echo :: "buffer \<Rightarrow> int \<Rightarrow> real \<Rightarrow> real \<Rightarrow> error + buffer" where
  "echo sound num_echos delay scale =
     bind_err (py_float (rate sound)) (\<lambda>float_rate.
     bind_err (py_round_float (py_mul delay float_rate)) (\<lambda>sample_delay.
     bind_err (echo_loop sound num_echos sample_delay scale 0 (left sound, right sound))
       (\<lambda>(l, r). Inr \<lparr>rate = rate sound, left = l, right = r\<rparr>)))"

text \<open>
  The closed form of \<open>echo\<close>, written after the specification: echo repetition \<open>k\<close>
  (counted from zero) with a delay of \<open>d\<close> samples adds
  \<open>scale ^ (k + 1) * original[i - d * (k + 1)]\<close> at position \<open>i\<close>, wherever that position
  of the original exists; \<open>echo_sum\<close> adds up the first \<open>m\<close> repetitions and
  \<open>echo_channel\<close> lays them over the channel extended by \<open>m * d\<close> zeros.
\<close>

definition echo_term :: "real list \<Rightarrow> nat \<Rightarrow> real \<Rightarrow> nat \<Rightarrow> nat \<Rightarrow> real" where
  "echo_term xs d scale k i =
     (if d * (k + 1) \<le> i \<and> i - d * (k + 1) < length xs
      then scale ^ (k + 1) * xs ! (i - d * (k + 1)) else 0)"

definition echo_sum :: "real list \<Rightarrow> nat \<Rightarrow> real \<Rightarrow> nat \<Rightarrow> nat \<Rightarrow> real" where
  "echo_sum xs d scale m i = (\<Sum>k\<leftarrow>[0..<m]. echo_term xs d scale k i)"

definition echo_channel :: "real list \<Rightarrow> nat \<Rightarrow> real \<Rightarrow> nat \<Rightarrow> real list" where
  "echo_channel xs d scale m =
     map (\<lambda>i. (xs @ replicate (m * d) 0) ! i + echo_sum xs d scale m i) [0..<length xs + m * d]"

subsection \<open>pan\<close>

fun pan_loop ::
  "bool \<Rightarrow> nat \<Rightarrow> nat list \<Rightarrow> real list \<times> real list \<Rightarrow> error + real list \<times> real list"
where
  "pan_loop left_to_right n [] (l, r) = Inr (l, r)"
| "pan_loop left_to_right n (i # rest) (l, r) =
     (if left_to_right then
        bind_err (py_index l (int i)) (\<lambda>a.
        bind_err (py_truediv (int i) (int n - 1)) (\<lambda>f.
        bind_err (py_setitem l i (a * (1 - f))) (\<lambda>l'.
        bind_err (py_index r (int i)) (\<lambda>b.
        bind_err (py_truediv (int i) (int n - 1)) (\<lambda>g.
        bind_err (py_setitem r i (b * g)) (\<lambda>r'.
        pan_loop left_to_right n rest (l', r')))))))
      else
        bind_err (py_index l (int i)) (\<lambda>a.
        bind_err (py_truediv (int i) (int n - 1)) (\<lambda>f.
        bind_err (py_setitem l i (a * f)) (\<lambda>l'.
        bind_err (py_index r (int i)) (\<lambda>b.
        bind_err (py_truediv (int i) (int n - 1)) (\<lambda>g.
        bind_err (py_setitem r i (b * (1 - g))) (\<lambda>r'.
        pan_loop left_to_right n rest (l', r'))))))))"

definition pan :: "buffer \<Rightarrow> bool \<Rightarrow> error + buffer" where
  "pan sound left_to_right =
     (let n = length (left sound)
      in bind_err (pan_loop left_to_right n (py_range n) (left sound, right sound))
           (\<lambda>(l, r). Inr \<lparr>rate = rate sound, left = l, right = r\<rparr>))"

text \<open>
  The factor a sample at position \<open>i\<close> of \<open>n\<close> is multiplied by: \<open>i / (n - 1)\<close> on the
  channel that fades in, \<open>1 - i / (n - 1)\<close> on the one that fades out. It names the
  closed form of the loop in the proofs below.
\<close>

definition pan_factor :: "bool \<Rightarrow> nat \<Rightarrow> nat \<Rightarrow> real" where
  "pan_factor fade_out n i = (if fade_out then 1 - real i / (real n - 1) else real i / (real n - 1))"

subsection \<open>remove\_vocals\<close>

fun remove_vocals_loop :: "buffer \<Rightarrow> nat list \<Rightarrow> real list \<Rightarrow> error + real list" where
  "remove_vocals_loop sound [] new = Inr new"
| "remove_vocals_loop sound (i # rest) new =
     bind_err (py_index (left sound) (int i)) (\<lambda>a.
     bind_err (py_index (right sound) (int i)) (\<lambda>b.
     remove_vocals_loop sound rest (new @ [a - b])))"

definition remove_vocals :: "buffer \<Rightarrow> error + buffer" where
  "remove_vocals sound =
     bind_err (remove_vocals_loop sound (py_range (length (left sound))) [])
       (\<lambda>new. Inr \<lparr>rate = rate sound, left = new, right = new\<rparr>)"

section \<open>Loading and writing functions\<close>

text \<open>
  \<^verbatim>\<open>struct.pack('<h', v)\<close> writes a signed 16-bit integer as two bytes, the low one
  first, and raises outside \<open>-32768 .. 32767\<close>; \<^verbatim>\<open>struct.unpack('<h', bs)\<close> reads
  exactly two bytes back and raises on any other length.
\<close>

type_synonym byte = "8 word"

definition pack_h :: "int \<Rightarrow> error + byte list" where
  "pack_h v =
     (if v < - 32768 \<or> 32767 < v then Inl StructError
      else Inr [word_of_int v, word_of_int (v div 256)])"

definition unpack_h :: "byte list \<Rightarrow> error + int" where
  "unpack_h bs = (case bs of [lo, hi] \<Rightarrow> Inr (uint lo + 256 * sint hi) | _ \<Rightarrow> Inl StructError)"

text \<open>
  Modelled from the spec: the container that Python's \<^verbatim>\<open>wave\<close> module reads and writes.
  The module is not part of the repository; section 6 of the specification describes the
  container as a header with the channel count, the bit depth (here \<open>sampwidth\<close>, in
  bytes per sample), the sample rate and the frame count, followed by the frames. The
  header is kept as a record, without its byte layout; the frame count is the length of
  the data divided by the frame size, as the module computes it. A file system maps a
  name to what is stored there: a container, or bytes that are none. Opening a missing
  file, a file that is no container, or one with no channel or no sample width fails;
  writing fails for a rate that is not positive.
\<close>

record wave_file =
  nchannels :: nat
  sampwidth :: nat
  framerate :: int
  frames :: "byte list"

datatype stored_file = WaveFile wave_file | OtherFile "byte list"

type_synonym filesystem = "string \<Rightarrow> stored_file option"

definition wave_open_read :: "filesystem \<Rightarrow> string \<Rightarrow> error + wave_file" where
  "wave_open_read fs filename =
     (case fs filename of
        None \<Rightarrow> Inl FileNotFoundError
      | Some (OtherFile bs) \<Rightarrow> Inl WaveError
      | Some (WaveFile f) \<Rightarrow> if nchannels f = 0 \<or> sampwidth f = 0 then Inl WaveError else Inr f)"

definition wave_setparams :: "nat \<Rightarrow> nat \<Rightarrow> int \<Rightarrow> error + wave_file" where
  "wave_setparams chan bd soundrate =
     (if soundrate \<le> 0 then Inl WaveError
      else Inr \<lparr>nchannels = chan, sampwidth = bd, framerate = soundrate, frames = []\<rparr>)"

definition wave_writeframes :: "wave_file \<Rightarrow> byte list \<Rightarrow> wave_file" where
  "wave_writeframes f bs = f\<lparr>frames := frames f @ bs\<rparr>"

subsection \<open>load\_audio\<close>

text \<open>
  \<^verbatim>\<open>f.readframes(1)\<close> hands out the next \<open>framesize\<close> bytes. With two channels the
  first two bytes are the left sample and the remaining ones the right sample; otherwise
  the whole frame is unpacked as one sample for both sides.
\<close>

fun read_frames ::
  "nat \<Rightarrow> nat \<Rightarrow> nat list \<Rightarrow> byte list \<Rightarrow> int list \<times> int list \<Rightarrow> error + int list \<times> int list"
where
  "read_frames chan framesize [] d (l, r) = Inr (l, r)"
| "read_frames chan framesize (i # rest) d (l, r) =
     (let frame = take framesize d in
      if chan = 2 then
        bind_err (unpack_h (take 2 frame)) (\<lambda>a.
        bind_err (unpack_h (drop 2 frame)) (\<lambda>b.
        read_frames chan framesize rest (drop framesize d) (l @ [a], r @ [b])))
      else
        bind_err (unpack_h frame) (\<lambda>datum.
        read_frames chan framesize rest (drop framesize d) (l @ [datum], r @ [datum])))"

definition decode_sample :: "int \<Rightarrow> real" where
  "decode_sample i = real_of_int i / 2 ^ 15"

text \<open>
  \<^verbatim>\<open>filename[-4:]\<close> is the last four characters, or the whole name when it is shorter.
\<close>

definition load_audio :: "filesystem \<Rightarrow> string \<Rightarrow> error + buffer" where
  "load_audio fs filename =
     (if drop (length filename - 4) filename \<noteq> ''.wav''
      then Inl (AssertionError ''Only .WAV files are supported'')
      else bind_err (wave_open_read fs filename) (\<lambda>f.
        let chan = nchannels f; bd = sampwidth f; soundrate = framerate f;
            count = length (frames f) div (chan * bd)
        in if bd \<noteq> 2 then Inl (AssertionError ''Only 16-bit .WAV files are supported'')
           else bind_err (read_frames chan (chan * bd) (py_range count) (frames f) ([], []))
             (\<lambda>(l, r). Inr \<lparr>rate = soundrate, left = map decode_sample l,
                               right = map decode_sample r\<rparr>)))"

subsection \<open>write\_wav\<close>

text \<open>
  \<^verbatim>\<open>int(max(-1, min(1, l)) * (2**15-1))\<close>: the product is a double, and \<^verbatim>\<open>int\<close>
  truncates that double. The clamped sample is at most one in magnitude, so the product
  cannot overflow.
\<close>

definition encode_sample :: "real \<Rightarrow> int" where
  "encode_sample x = py_int (to_double (max (- 1) (min 1 x) * (2 ^ 15 - 1)))"

fun write_loop :: "(real \<times> real) list \<Rightarrow> int list \<Rightarrow> int list" where
  "write_loop [] out = out"
| "write_loop ((l, r) # rest) out = write_loop rest (out @ [encode_sample l, encode_sample r])"

fun pack_frames :: "int list \<Rightarrow> error + byte list" where
  "pack_frames [] = Inr []"
| "pack_frames (frame # rest) =
     bind_err (pack_h frame) (\<lambda>bs. bind_err (pack_frames rest) (\<lambda>bss. Inr (bs @ bss)))"

definition write_wav :: "filesystem \<Rightarrow> buffer \<Rightarrow> string \<Rightarrow> error + filesystem" where
  "write_wav fs sound filename =
     bind_err (wave_setparams 2 2 (rate sound)) (\<lambda>outfile.
       let out = write_loop (zip (left sound) (right sound)) []
       in bind_err (pack_frames out) (\<lambda>bs.
            Inr (fs(filename \<mapsto> WaveFile (wave_writeframes outfile bs)))))"

text \<open>
  The encoding of a sample as the specification words it, with rounding to the nearest
  integer in place of \<^verbatim>\<open>int\<close>.
\<close>

definition encode_sample_spec :: "real \<Rightarrow> int" where
  "encode_sample_spec x = round (max (- 1) (min 1 x) * (2 ^ 15 - 1))"

section \<open>Basic facts\<close>

lemma bind_err_Inl [simp]: "bind_err (Inl e) f = Inl e"
  by (simp add: bind_err_def)

lemma bind_err_Inr [simp]: "bind_err (Inr x) f = f x"
  by (simp add: bind_err_def)

lemma py_index_nat [simp]:
  "py_index xs (int i) = (if i < length xs then Inr (xs ! i) else Inl IndexError)"
  by (simp add: py_index_def)

lemma py_setitem_ok [simp]: "i < length xs \<Longrightarrow> py_setitem xs i v = Inr (xs[i := v])"
  by (simp add: py_setitem_def)

lemma py_truediv_ok [simp]: "b \<noteq> 0 \<Longrightarrow> py_truediv a b = Inr (real_of_int a / real_of_int b)"
  by (simp add: py_truediv_def)

lemma py_truediv_zero [simp]: "py_truediv a 0 = Inl ZeroDivisionError"
  by (simp add: py_truediv_def)

lemma map_update_step:
  assumes "i \<notin> set idx" and "i < length l"
  shows "map (\<lambda>j. if j \<in> set idx then g j (l[i := g i (l ! i)] ! j) else l[i := g i (l ! i)] ! j)
           [0..<length l]
       = map (\<lambda>j. if j \<in> set (i # idx) then g j (l ! j) else l ! j) [0..<length l]"
  using assms by (auto simp: nth_list_update)

section \<open>Rounding to a double\<close>

lemma py_round_of_int [simp]: "py_round (real_of_int j) = j"
  by (simp add: py_round_def)

lemma py_round_cases:
  "py_round a = \<lfloor>a\<rfloor> \<or> py_round a = \<lfloor>a\<rfloor> + 1"
  by (simp add: py_round_def Let_def)

lemma py_round_mono:
  assumes "a \<le> b"
  shows "py_round a \<le> py_round b"
proof (cases "\<lfloor>a\<rfloor> = \<lfloor>b\<rfloor>")
  case True
  have "a - real_of_int \<lfloor>a\<rfloor> \<le> b - real_of_int \<lfloor>a\<rfloor>" using assms by simp
  then show ?thesis
    unfolding py_round_def Let_def True [symmetric] by auto
next
  case False
  with assms have "\<lfloor>a\<rfloor> < \<lfloor>b\<rfloor>" by (simp add: floor_mono order.strict_iff_order)
  moreover have "py_round a \<le> \<lfloor>a\<rfloor> + 1" using py_round_cases [of a] by auto
  moreover have "\<lfloor>b\<rfloor> \<le> py_round b" using py_round_cases [of b] by auto
  ultimately show ?thesis by linarith
qed

lemma py_round_uminus: "py_round (- a) = - py_round a"
proof (cases "a = real_of_int \<lfloor>a\<rfloor>")
  case True
  then obtain j where "a = real_of_int j" ..
  then have "- a = real_of_int (- j)" by simp
  then show ?thesis unfolding \<open>a = real_of_int j\<close> by (simp only: py_round_of_int)
next
  case False
  define f where "f = \<lfloor>a\<rfloor>"
  define d where "d = a - real_of_int f"
  have "real_of_int f \<le> a" and "a < real_of_int f + 1"
    unfolding f_def by linarith+
  with False have d: "0 < d" "d < 1" unfolding d_def f_def by linarith+
  have "real_of_int (- f - 1) \<le> - a" and "- a < real_of_int (- f - 1) + 1"
    using d unfolding d_def by simp_all
  then have fl: "\<lfloor>- a\<rfloor> = - f - 1" by (rule floor_unique)
  have d': "- a - real_of_int (- f - 1) = 1 - d" unfolding d_def by simp
  have pos: "py_round a = (if d < 1 / 2 then f else if 1 / 2 < d then f + 1
      else if even f then f else f + 1)"
    unfolding py_round_def Let_def f_def [symmetric] d_def [symmetric] ..
  have neg: "py_round (- a) = (if 1 - d < 1 / 2 then - f - 1 else if 1 / 2 < 1 - d then - f - 1 + 1
      else if even (- f - 1) then - f - 1 else - f - 1 + 1)"
    unfolding py_round_def Let_def fl d' ..
  consider "d < 1 / 2" | "1 / 2 < d" | "d = 1 / 2" by linarith
  then show ?thesis
  proof cases
    case 1
    then show ?thesis unfolding pos neg by simp
  next
    case 2
    then show ?thesis unfolding pos neg by simp
  next
    case 3
    then show ?thesis unfolding pos neg by simp
  qed
qed

lemma py_round_ge: "real_of_int j \<le> a \<Longrightarrow> j \<le> py_round a"
  using py_round_mono [of "real_of_int j" a] by simp

lemma py_round_le: "a \<le> real_of_int j \<Longrightarrow> py_round a \<le> j"
  using py_round_mono [of a "real_of_int j"] by simp

lemma powi_le_floor_log:
  assumes "0 < x" and "2 powi n \<le> x"
  shows "n \<le> \<lfloor>log 2 x\<rfloor>"
proof -
  have "2 powr real_of_int n \<le> x" using assms(2) by (simp add: powr_real_of_int')
  then have "real_of_int n \<le> log 2 x" using assms(1) by (simp add: le_log_iff)
  then show ?thesis by (simp add: le_floor_iff)
qed

lemma floor_log_less_powi:
  assumes "0 < x" and "x < 2 powi n"
  shows "\<lfloor>log 2 x\<rfloor> < n"
proof -
  have "x < 2 powr real_of_int n" using assms(2) by (simp add: powr_real_of_int')
  then have "log 2 x < real_of_int n" using assms(1) by (simp add: log_less_iff)
  then show ?thesis by (simp add: floor_less_iff)
qed

lemma floor_log_bounds:
  assumes "0 < x"
  shows "2 powi \<lfloor>log 2 x\<rfloor> \<le> x" and "x < 2 powi (\<lfloor>log 2 x\<rfloor> + 1)"
proof -
  have "real_of_int \<lfloor>log 2 x\<rfloor> \<le> log 2 x" by simp
  then have "2 powr real_of_int \<lfloor>log 2 x\<rfloor> \<le> x"
    using assms by (subst (asm) le_log_iff; simp)
  then show "2 powi \<lfloor>log 2 x\<rfloor> \<le> x" by (simp add: powr_real_of_int')
  have "log 2 x < real_of_int (\<lfloor>log 2 x\<rfloor> + 1)" by simp
  then have "x < 2 powr real_of_int (\<lfloor>log 2 x\<rfloor> + 1)"
    using assms by (subst (asm) log_less_iff; simp)
  moreover have "2 powr real_of_int (\<lfloor>log 2 x\<rfloor> + 1) = (2::real) powi (\<lfloor>log 2 x\<rfloor> + 1)"
    by (rule powr_real_of_int') simp_all
  ultimately show "x < 2 powi (\<lfloor>log 2 x\<rfloor> + 1)" by (simp only:)
qed

lemma double_ulp_pos [simp]: "0 < double_ulp x"
  by (simp add: double_ulp_def)

lemma double_ulp_nonneg [simp]: "0 \<le> double_ulp x"
  by (simp add: double_ulp_def)

lemma double_exponent_uminus [simp]: "double_exponent (- x) = double_exponent x"
  by (simp add: double_exponent_def)

lemma double_ulp_uminus [simp]: "double_ulp (- x) = double_ulp x"
  by (simp add: double_ulp_def)

lemma to_double_0 [simp]: "to_double 0 = 0"
  by (simp add: to_double_def)

lemma to_double_uminus: "to_double (- x) = - to_double x"
  by (simp add: to_double_def py_round_uminus)

lemma double_exponent_mono:
  assumes "0 < x" and "x \<le> y"
  shows "double_exponent x \<le> double_exponent y"
proof -
  have "log 2 x \<le> log 2 y" using assms by simp
  then have "\<lfloor>log 2 x\<rfloor> \<le> \<lfloor>log 2 y\<rfloor>" by (rule floor_mono)
  then show ?thesis using assms by (simp add: double_exponent_def)
qed

lemma less_next_binade:
  assumes "0 < x"
  shows "x < 2 powi (double_exponent x + 1)"
proof -
  have "x < 2 powi (\<lfloor>log 2 x\<rfloor> + 1)" using assms by (rule floor_log_bounds)
  also have "\<dots> \<le> 2 powi (double_exponent x + 1)"
    using assms by (intro power_int_increasing) (simp_all add: double_exponent_def)
  finally show ?thesis .
qed

lemma to_double_le_next_binade:
  assumes "0 < x"
  shows "to_double x \<le> 2 powi (double_exponent x + 1)"
proof -
  let ?u = "double_ulp x"
  have split: "2 powi (double_exponent x + 1) = 2 ^ 53 * ?u"
    unfolding double_ulp_def by (simp add: power_int_diff power_int_add)
  have "x / ?u \<le> real_of_int (2 ^ 53)"
    using less_next_binade [OF assms] unfolding split by (simp add: field_simps)
  then have "py_round (x / ?u) \<le> 2 ^ 53" by (rule py_round_le)
  then have "real_of_int (py_round (x / ?u)) \<le> real_of_int (2 ^ 53)" by (simp only: of_int_le_iff)
  then have "real_of_int (py_round (x / ?u)) \<le> 2 ^ 53" by simp
  then have "real_of_int (py_round (x / ?u)) * ?u \<le> 2 ^ 53 * ?u"
    by (intro mult_right_mono) simp_all
  then show ?thesis using assms unfolding split by (simp add: to_double_def)
qed

lemma to_double_ge_binade:
  assumes "0 < x" and "- 1022 < double_exponent x"
  shows "2 powi double_exponent x \<le> to_double x"
proof -
  let ?u = "double_ulp x"
  from assms(2) have e: "double_exponent x = \<lfloor>log 2 x\<rfloor>"
    using assms(1) by (simp add: double_exponent_def max_def split: if_splits)
  have split: "2 powi double_exponent x = 2 ^ 52 * ?u"
    unfolding double_ulp_def by (simp add: power_int_diff)
  have "2 powi double_exponent x \<le> x" unfolding e using assms(1) by (rule floor_log_bounds)
  then have "real_of_int (2 ^ 52) \<le> x / ?u"
    unfolding split by (simp add: field_simps)
  then have "2 ^ 52 \<le> py_round (x / ?u)" by (rule py_round_ge)
  then have "real_of_int (2 ^ 52) \<le> real_of_int (py_round (x / ?u))" by (simp only: of_int_le_iff)
  then have "2 ^ 52 \<le> real_of_int (py_round (x / ?u))" by simp
  then have "2 ^ 52 * ?u \<le> real_of_int (py_round (x / ?u)) * ?u"
    by (intro mult_right_mono) simp_all
  then show ?thesis using assms(1) unfolding split by (simp add: to_double_def)
qed

lemma to_double_nonneg: "0 \<le> x \<Longrightarrow> 0 \<le> to_double x"
proof (cases "x = 0")
  case False
  assume "0 \<le> x"
  then have "0 \<le> x / double_ulp x" by (intro divide_nonneg_pos double_ulp_pos)
  then have "real_of_int 0 \<le> x / double_ulp x" by simp
  then have "0 \<le> py_round (x / double_ulp x)" by (rule py_round_ge)
  then have "0 \<le> real_of_int (py_round (x / double_ulp x)) * double_ulp x"
    by (intro mult_nonneg_nonneg) simp_all
  then show ?thesis using False by (simp add: to_double_def)
qed simp

lemma to_double_mono_pos:
  assumes "0 < x" and "x \<le> y"
  shows "to_double x \<le> to_double y"
proof (cases "double_exponent x = double_exponent y")
  case True
  then have u: "double_ulp x = double_ulp y" by (simp add: double_ulp_def)
  have "x / double_ulp y \<le> y / double_ulp y"
    using assms(2) by (intro divide_right_mono) (simp_all add: less_imp_le)
  then have "py_round (x / double_ulp y) \<le> py_round (y / double_ulp y)" by (rule py_round_mono)
  then have "real_of_int (py_round (x / double_ulp y)) * double_ulp y
      \<le> real_of_int (py_round (y / double_ulp y)) * double_ulp y"
    by (intro mult_right_mono) simp_all
  then show ?thesis using assms unfolding to_double_def u by simp
next
  case False
  with double_exponent_mono [OF assms] have less: "double_exponent x < double_exponent y" by simp
  have "- 1022 \<le> double_exponent x" by (simp add: double_exponent_def)
  with less have normal: "- 1022 < double_exponent y" by simp
  from assms have y: "0 < y" by simp
  have "to_double x \<le> 2 powi (double_exponent x + 1)"
    using assms(1) by (rule to_double_le_next_binade)
  also have "\<dots> \<le> 2 powi double_exponent y"
    using less by (intro power_int_increasing) simp_all
  also have "\<dots> \<le> to_double y" using y normal by (rule to_double_ge_binade)
  finally show ?thesis .
qed

lemma to_double_mono:
  assumes "x \<le> y"
  shows "to_double x \<le> to_double y"
proof -
  consider "0 < x" | "x \<le> 0" "0 \<le> y" | "y < 0" by linarith
  then show ?thesis
  proof cases
    case 1
    then show ?thesis using assms by (rule to_double_mono_pos)
  next
    case 2
    from 2(1) have "0 \<le> to_double (- x)" by (intro to_double_nonneg) simp
    then have "to_double x \<le> 0" by (simp add: to_double_uminus)
    also have "0 \<le> to_double y" using 2(2) by (rule to_double_nonneg)
    finally show ?thesis .
  next
    case 3
    then have "0 < - y" and "- y \<le> - x" using assms by simp_all
    then have "to_double (- y) \<le> to_double (- x)" by (rule to_double_mono_pos)
    then show ?thesis by (simp add: to_double_uminus)
  qed
qed


lemma to_double_exact:
  assumes "x = real_of_int m * 2 powi k" and "\<bar>m\<bar> < 2 ^ 53" and "- 1074 \<le> k"
  shows "to_double x = x"
proof (cases "m = 0")
  case True
  then show ?thesis using assms(1) by simp
next
  case False
  then have x0: "x \<noteq> 0" and pos: "0 < \<bar>x\<bar>" using assms(1) by simp_all
  define j where "j = double_exponent x - 52"
  have "real_of_int \<bar>m\<bar> < real_of_int (2 ^ 53)" using assms(2) by (simp only: of_int_less_iff)
  then have "\<bar>real_of_int m\<bar> * 2 powi k < 2 ^ 53 * 2 powi k"
    by (intro mult_strict_right_mono) simp_all
  also have "\<dots> = 2 powi (53 + k)" by (simp add: power_int_add)
  finally have "\<bar>x\<bar> < 2 powi (53 + k)" unfolding assms(1) by (simp add: abs_mult)
  with pos have "\<lfloor>log 2 \<bar>x\<bar>\<rfloor> < 53 + k" by (rule floor_log_less_powi)
  with assms(3) have jk: "j \<le> k" unfolding j_def double_exponent_def by simp
  have u: "double_ulp x = 2 powi j" unfolding double_ulp_def j_def ..
  have "2 powi k = (2::real) powi (j + (k - j))" by simp
  also have "\<dots> = 2 powi j * 2 powi (k - j)" by (rule power_int_add) simp
  also have "2 powi (k - j) = (2::real) ^ nat (k - j)" using jk by (simp add: power_int_def)
  finally have k: "2 powi k = 2 powi j * (2::real) ^ nat (k - j)" .
  have "x / 2 powi j = real_of_int (m * 2 ^ nat (k - j))"
    unfolding assms(1) k by simp
  then have "x / double_ulp x = real_of_int (m * 2 ^ nat (k - j))"
    by (simp only: u)
  then have "py_round (x / double_ulp x) = m * 2 ^ nat (k - j)" by (simp only: py_round_of_int)
  then have "to_double x = real_of_int (m * 2 ^ nat (k - j)) * 2 powi j"
    using x0 unfolding to_double_def u by simp
  also have "\<dots> = x" unfolding assms(1) k by simp
  finally show ?thesis .
qed

lemma to_double_of_int: "\<bar>n\<bar> < 2 ^ 53 \<Longrightarrow> to_double (real_of_int n) = real_of_int n"
  by (rule to_double_exact [where m = n and k = 0]) simp_all

lemma to_double_binade:
  assumes "2 powi e \<le> \<bar>x\<bar>" and "\<bar>x\<bar> < 2 powi (e + 1)" and "- 1022 \<le> e"
  shows "to_double x = real_of_int (py_round (x / 2 powi (e - 52))) * 2 powi (e - 52)"
proof -
  have "0 < (2::real) powi e" by simp
  with assms(1) have pos: "0 < \<bar>x\<bar>" by linarith
  have "e \<le> \<lfloor>log 2 \<bar>x\<bar>\<rfloor>" using pos assms(1) by (rule powi_le_floor_log)
  moreover have "\<lfloor>log 2 \<bar>x\<bar>\<rfloor> < e + 1" using pos assms(2) by (rule floor_log_less_powi)
  ultimately have "double_exponent x = e" using assms(3) by (simp add: double_exponent_def)
  then show ?thesis using pos by (simp add: to_double_def double_ulp_def)
qed

lemma to_double_subnormal:
  assumes "\<bar>x\<bar> < 2 powi (- 1022)"
  shows "to_double x = real_of_int (py_round (x / 2 powi (- 1074))) * 2 powi (- 1074)"
proof (cases "x = 0")
  case True
  then show ?thesis using py_round_of_int [of 0] by simp
next
  case False
  then have pos: "0 < \<bar>x\<bar>" by simp
  have "\<lfloor>log 2 \<bar>x\<bar>\<rfloor> < - 1022" using pos assms by (rule floor_log_less_powi)
  then have "double_exponent x = - 1022" by (simp add: double_exponent_def)
  then show ?thesis using False by (simp add: to_double_def double_ulp_def)
qed

section \<open>Reversal\<close>

text \<open>
  C9. \<open>backwards\<close> (the spec's reverse) keeps the rate and returns both channels in
  reverse sample order, each with its length unchanged. Applied twice it gives the input
  back, for every buffer, the empty one included.
\<close>

theorem backwards_involution:
  "rate (backwards b) = rate b
   \<and> left (backwards b) = rev (left b) \<and> right (backwards b) = rev (right b)
   \<and> length (left (backwards b)) = length (left b)
   \<and> length (right (backwards b)) = length (right b)
   \<and> backwards (backwards b) = b
   \<and> backwards \<lparr>rate = r, left = [], right = []\<rparr> = \<lparr>rate = r, left = [], right = []\<rparr>"
  by (simp add: backwards_def)

section \<open>Mixing\<close>

lemma mix_loop_ok:
  "\<forall>i\<in>set idx. i < length (left a) \<and> i < length (left b) \<and> i < length (right a) \<and> i < length (right b)
   \<Longrightarrow> mix_loop a b p idx (l, r) =
       Inr (l @ map (\<lambda>i. p * left a ! i + (1 - p) * left b ! i) idx,
            r @ map (\<lambda>i. p * right a ! i + (1 - p) * right b ! i) idx)"
  by (induction idx arbitrary: l r) simp_all

lemma mix_ok:
  assumes "length (left a) = length (right a)" and "length (left b) = length (right b)"
    and "rate a = rate b" and "0 \<le> p" and "p \<le> 1"
  shows "mix a b p = Inr \<lparr>rate = rate a,
     left = map (\<lambda>i. p * left a ! i + (1 - p) * left b ! i) [0..<min (length (left a)) (length (left b))],
     right = map (\<lambda>i. p * right a ! i + (1 - p) * right b ! i) [0..<min (length (left a)) (length (left b))]\<rparr>"
proof -
  let ?m = "min (length (left a)) (length (left b))"
  have "\<forall>i\<in>set [0..<?m]. i < length (left a) \<and> i < length (left b) \<and> i < length (right a) \<and> i < length (right b)"
    using assms(1,2) by simp
  from mix_loop_ok [OF this, of p "[]" "[]"] assms(3-5) show ?thesis
    by (simp add: mix_def py_range_def min_def Let_def)
qed

lemma mix_loop_error: "mix_loop a b p idx lr = Inl e \<Longrightarrow> e = IndexError"
proof (induction idx arbitrary: lr)
  case Nil
  then show ?case by (cases lr) simp
next
  case (Cons i idx)
  then show ?case by (cases lr) (auto split: if_splits)
qed

text \<open>
  C5. For two buffers with equal-length channels and the same rate, and \<open>0 \<le> p \<le> 1\<close>,
  \<open>mix\<close> returns a buffer with the first buffer's rate whose length is the smaller of the
  two lengths, the samples beyond it being dropped, and whose samples are
  \<open>p * a.left[i] + (1 - p) * b.left[i]\<close> and \<open>p * a.right[i] + (1 - p) * b.right[i]\<close>.
  With \<open>p = 1\<close> the result is the first buffer cut to that length, with \<open>p = 0\<close> the
  second one.
\<close>

theorem mix_blend:
  assumes "length (left a) = length (right a)" and "length (left b) = length (right b)"
    and "rate a = rate b" and "0 \<le> p" and "p \<le> 1"
  shows "\<exists>c. mix a b p = Inr c \<and> rate c = rate a
      \<and> length (left c) = min (length (left a)) (length (left b))
      \<and> length (right c) = min (length (left a)) (length (left b))
      \<and> (\<forall>i < min (length (left a)) (length (left b)).
           left c ! i = p * left a ! i + (1 - p) * left b ! i \<and>
           right c ! i = p * right a ! i + (1 - p) * right b ! i)
      \<and> mix a b 1 = Inr \<lparr>rate = rate a, left = take (length (left b)) (left a),
                           right = take (length (left b)) (right a)\<rparr>
      \<and> mix a b 0 = Inr \<lparr>rate = rate a, left = take (length (left a)) (left b),
                           right = take (length (left a)) (right b)\<rparr>"
proof -
  have one: "mix a b 1 = Inr \<lparr>rate = rate a, left = take (length (left b)) (left a),
                           right = take (length (left b)) (right a)\<rparr>"
    using assms(1,2) by (simp add: mix_ok [OF assms(1,2,3)] list_eq_iff_nth_eq)
  have zero: "mix a b 0 = Inr \<lparr>rate = rate a, left = take (length (left a)) (left b),
                           right = take (length (left a)) (right b)\<rparr>"
    using assms(1,2) by (simp add: mix_ok [OF assms(1,2,3)] list_eq_iff_nth_eq)
  show ?thesis
    by (simp add: mix_ok [OF assms] one zero)
qed

theorem mix_blend_witness:
  "\<exists>c. mix \<lparr>rate = 100, left = [1, 1], right = [1, 1]\<rparr>
          \<lparr>rate = 100, left = [0, 0], right = [0, 0]\<rparr> (1 / 2) = Inr c
     \<and> rate c = 100 \<and> length (left c) = 2 \<and> length (right c) = 2
     \<and> left c ! 0 = 1 / 2 \<and> left c ! 1 = 1 / 2 \<and> right c ! 0 = 1 / 2 \<and> right c ! 1 = 1 / 2"
  using mix_blend [of "\<lparr>rate = 100, left = [1, 1], right = [1, 1]\<rparr>"
      "\<lparr>rate = 100, left = [0, 0], right = [0, 0]\<rparr>" "1 / 2"]
  by auto

text \<open>
  C6. \<open>mix\<close> fails with the assertion on the rates (the spec's RateMismatch) exactly when
  the rates differ; with equal rates it fails with the assertion on the proportion (the
  spec's InvalidParameter) exactly when \<open>p < 0\<close> or \<open>p > 1\<close>; a failure is a value
  \<open>Inl\<close>, which carries no buffer; and with equal rates, \<open>p\<close> in range and buffers whose
  channels have equal length it returns a buffer.
\<close>

theorem mix_errors:
  "(mix a b p = Inl (AssertionError ''Sound rates must be the same'') \<longleftrightarrow> rate a \<noteq> rate b)
   \<and> (rate a = rate b \<longrightarrow>
        (mix a b p = Inl (AssertionError ''Proportion must be a real number between 0 and 1'')
         \<longleftrightarrow> p < 0 \<or> 1 < p))
   \<and> (rate a = rate b \<and> 0 \<le> p \<and> p \<le> 1
        \<and> length (left a) = length (right a) \<and> length (left b) = length (right b)
        \<longrightarrow> (\<exists>c. mix a b p = Inr c))"
proof -
  have loop: "bind_err (mix_loop a b p idx ([], [])) (\<lambda>(l, r). Inr \<lparr>rate = rr, left = l, right = r\<rparr>)
      \<noteq> Inl (AssertionError msg)" for idx msg rr
  proof (cases "mix_loop a b p idx ([], [])")
    case (Inl e)
    then show ?thesis using mix_loop_error [OF Inl] by simp
  next
    case (Inr lr)
    then show ?thesis by (cases lr) simp
  qed
  have first: "mix a b p = Inl (AssertionError ''Sound rates must be the same'') \<longleftrightarrow> rate a \<noteq> rate b"
    using loop by (simp add: mix_def Let_def)
  have second: "rate a = rate b \<Longrightarrow>
        (mix a b p = Inl (AssertionError ''Proportion must be a real number between 0 and 1'')
         \<longleftrightarrow> p < 0 \<or> 1 < p)"
    using loop by (auto simp add: mix_def Let_def)
  have third: "rate a = rate b \<and> 0 \<le> p \<and> p \<le> 1
        \<and> length (left a) = length (right a) \<and> length (left b) = length (right b)
        \<Longrightarrow> \<exists>c. mix a b p = Inr c"
    by (simp add: mix_ok)
  from first second third show ?thesis by blast
qed

theorem mix_errors_witness:
  "mix \<lparr>rate = 100, left = [1, 1], right = [1, 1]\<rparr> \<lparr>rate = 200, left = [0, 0], right = [0, 0]\<rparr> (1 / 2)
     = Inl (AssertionError ''Sound rates must be the same'')
   \<and> mix \<lparr>rate = 100, left = [1, 1], right = [1, 1]\<rparr> \<lparr>rate = 100, left = [0, 0], right = [0, 0]\<rparr> 2
     = Inl (AssertionError ''Proportion must be a real number between 0 and 1'')
   \<and> (\<exists>c. mix \<lparr>rate = 100, left = [1, 1], right = [1, 1]\<rparr>
        \<lparr>rate = 100, left = [0, 0], right = [0, 0]\<rparr> (1 / 2) = Inr c)"
  using mix_errors [of "\<lparr>rate = 100, left = [1, 1], right = [1, 1]\<rparr>"
      "\<lparr>rate = 200, left = [0, 0], right = [0, 0]\<rparr>" "1 / 2"]
    mix_errors [of "\<lparr>rate = 100, left = [1, 1], right = [1, 1]\<rparr>"
      "\<lparr>rate = 100, left = [0, 0], right = [0, 0]\<rparr>" 2]
    mix_errors [of "\<lparr>rate = 100, left = [1, 1], right = [1, 1]\<rparr>"
      "\<lparr>rate = 100, left = [0, 0], right = [0, 0]\<rparr>" "1 / 2"]
  by simp

section \<open>Vocal removal\<close>

lemma remove_vocals_loop_ok:
  "\<forall>i\<in>set idx. i < length (left b) \<and> i < length (right b)
   \<Longrightarrow> remove_vocals_loop b idx new = Inr (new @ map (\<lambda>i. left b ! i - right b ! i) idx)"
  by (induction idx arbitrary: new) simp_all

text \<open>
  C8. For a buffer with equal-length channels \<open>remove_vocals\<close> returns a buffer of the same
  rate and length whose two channels are the same sequence, sample \<open>i\<close> being
  \<open>left[i] - right[i]\<close>; when the two input channels are equal, every sample is zero.
\<close>

theorem remove_vocals_difference:
  assumes "length (left b) = length (right b)"
  shows "\<exists>c. remove_vocals b = Inr c \<and> rate c = rate b
      \<and> length (left c) = length (left b) \<and> right c = left c
      \<and> (\<forall>i < length (left b). left c ! i = left b ! i - right b ! i)
      \<and> (left b = right b \<longrightarrow> left c = replicate (length (left b)) 0)"
proof -
  have "\<forall>i\<in>set [0..<length (left b)]. i < length (left b) \<and> i < length (right b)"
    using assms by simp
  from remove_vocals_loop_ok [OF this, of "[]"]
  have "remove_vocals b = Inr \<lparr>rate = rate b,
      left = map (\<lambda>i. left b ! i - right b ! i) [0..<length (left b)],
      right = map (\<lambda>i. left b ! i - right b ! i) [0..<length (left b)]\<rparr>"
    by (simp add: remove_vocals_def py_range_def)
  moreover have "left b = right b \<Longrightarrow>
      map (\<lambda>i. left b ! i - right b ! i) [0..<length (left b)] = replicate (length (left b)) 0"
    by (simp add: map_replicate_const)
  ultimately show ?thesis
    by simp
qed

theorem remove_vocals_difference_witness:
  "\<exists>c. remove_vocals \<lparr>rate = 8000, left = [1, 1 / 2, - 1 / 2], right = [1, 1 / 2, - 1 / 2]\<rparr> = Inr c
     \<and> rate c = 8000 \<and> left c = [0, 0, 0] \<and> right c = [0, 0, 0]"
proof -
  let ?b = "\<lparr>rate = 8000, left = [1, 1 / 2, - 1 / 2], right = [1, 1 / 2, - 1 / 2 :: real]\<rparr>"
  have "length (left ?b) = length (right ?b)" by simp
  from remove_vocals_difference [OF this] obtain c where
    c: "remove_vocals ?b = Inr c" "rate c = rate ?b" "right c = left c"
       "left ?b = right ?b \<longrightarrow> left c = replicate (length (left ?b)) 0"
    by blast
  from c(4) have "left c = [0, 0, 0]" by (simp add: numeral_3_eq_3)
  with c(1-3) show ?thesis by simp
qed

section \<open>Panning\<close>

lemma pan_loop_ok:
  assumes "n \<noteq> 1" and "distinct idx" and "\<forall>i\<in>set idx. i < length l \<and> i < length r"
  shows "pan_loop ltr n idx (l, r) =
     Inr (map (\<lambda>j. if j \<in> set idx then l ! j * pan_factor ltr n j else l ! j) [0..<length l],
          map (\<lambda>j. if j \<in> set idx then r ! j * pan_factor (\<not> ltr) n j else r ! j) [0..<length r])"
  using assms(2,3)
proof (induction idx arbitrary: l r)
  case Nil
  show ?case by (simp add: map_nth)
next
  case (Cons i idx)
  from \<open>n \<noteq> 1\<close> have n: "int n - 1 \<noteq> 0" by simp
  have i: "i < length l" "i < length r" "i \<notin> set idx" "distinct idx"
    using Cons.prems by simp_all
  let ?l = "l[i := l ! i * pan_factor ltr n i]"
  let ?r = "r[i := r ! i * pan_factor (\<not> ltr) n i]"
  have rest: "\<forall>k\<in>set idx. k < length ?l \<and> k < length ?r"
    using Cons.prems by simp
  have "pan_loop ltr n (i # idx) (l, r) = pan_loop ltr n idx (?l, ?r)"
    using i n by (cases ltr) (simp_all add: pan_factor_def)
  also have "\<dots> = Inr (map (\<lambda>j. if j \<in> set idx then ?l ! j * pan_factor ltr n j else ?l ! j) [0..<length l],
          map (\<lambda>j. if j \<in> set idx then ?r ! j * pan_factor (\<not> ltr) n j else ?r ! j) [0..<length r])"
    using Cons.IH [OF i(4) rest] by simp
  also have "map (\<lambda>j. if j \<in> set idx then ?l ! j * pan_factor ltr n j else ?l ! j) [0..<length l]
     = map (\<lambda>j. if j \<in> set (i # idx) then l ! j * pan_factor ltr n j else l ! j) [0..<length l]"
    using map_update_step [OF i(3) i(1), of "\<lambda>j x. x * pan_factor ltr n j"] by simp
  also have "map (\<lambda>j. if j \<in> set idx then ?r ! j * pan_factor (\<not> ltr) n j else ?r ! j) [0..<length r]
     = map (\<lambda>j. if j \<in> set (i # idx) then r ! j * pan_factor (\<not> ltr) n j else r ! j) [0..<length r]"
    using map_update_step [OF i(3) i(2), of "\<lambda>j x. x * pan_factor (\<not> ltr) n j"] by simp
  finally show ?case .
qed

lemma pan_ok:
  assumes "length (left b) = length (right b)" and "length (left b) \<noteq> 1"
  shows "pan b ltr = Inr \<lparr>rate = rate b,
      left = map (\<lambda>i. left b ! i * pan_factor ltr (length (left b)) i) [0..<length (left b)],
      right = map (\<lambda>i. right b ! i * pan_factor (\<not> ltr) (length (left b)) i) [0..<length (left b)]\<rparr>"
proof -
  have "\<forall>i\<in>set [0..<length (left b)]. i < length (left b) \<and> i < length (right b)"
    using assms(1) by simp
  from pan_loop_ok [OF assms(2) distinct_upt this, of ltr] assms(1) show ?thesis
    by (simp add: pan_def py_range_def Let_def cong: map_cong)
qed

text \<open>
  C7. For a buffer with equal-length channels and more than one sample, \<open>pan\<close> from left
  to right returns a buffer of the same rate and length with
  \<open>left[i] = b.left[i] * (1 - f)\<close> and \<open>right[i] = b.right[i] * f\<close>, where
  \<open>f = i / (n - 1)\<close>; so the first left sample is unchanged, the first right sample is
  zero, the last left sample is zero and the last right sample is unchanged. From right
  to left the two factors change places.
\<close>

theorem pan_crossfade:
  assumes "length (left b) = length (right b)" and "1 < length (left b)"
  shows "(\<exists>c. pan b True = Inr c \<and> rate c = rate b
        \<and> length (left c) = length (left b) \<and> length (right c) = length (left b)
        \<and> (\<forall>i < length (left b).
              left c ! i = left b ! i * (1 - real i / (real (length (left b)) - 1)) \<and>
              right c ! i = right b ! i * (real i / (real (length (left b)) - 1)))
        \<and> left c ! 0 = left b ! 0 \<and> right c ! 0 = 0
        \<and> left c ! (length (left b) - 1) = 0
        \<and> right c ! (length (left b) - 1) = right b ! (length (left b) - 1))
     \<and> (\<exists>c. pan b False = Inr c \<and> rate c = rate b
        \<and> length (left c) = length (left b) \<and> length (right c) = length (left b)
        \<and> (\<forall>i < length (left b).
              left c ! i = left b ! i * (real i / (real (length (left b)) - 1)) \<and>
              right c ! i = right b ! i * (1 - real i / (real (length (left b)) - 1))))"
proof -
  let ?n = "length (left b)"
  from assms(2) have ne: "?n \<noteq> 1" by simp
  have last: "pan_factor False ?n (?n - 1) = 1"
    using assms(2) by (simp add: pan_factor_def of_nat_diff)
  have first: "pan_factor False ?n 0 = 0"
    by (simp add: pan_factor_def)
  have compl: "pan_factor True ?n i = 1 - pan_factor False ?n i" for i
    by (simp add: pan_factor_def)
  have pos: "0 < ?n" "?n - 1 < ?n"
    using assms(2) by auto
  have fwd: "\<exists>c. pan b True = Inr c \<and> rate c = rate b
        \<and> length (left c) = ?n \<and> length (right c) = ?n
        \<and> (\<forall>i < ?n. left c ! i = left b ! i * (1 - pan_factor False ?n i) \<and>
              right c ! i = right b ! i * pan_factor False ?n i)
        \<and> left c ! 0 = left b ! 0 \<and> right c ! 0 = 0
        \<and> left c ! (?n - 1) = 0
        \<and> right c ! (?n - 1) = right b ! (?n - 1)"
    using pos last by (simp add: pan_ok [OF assms(1) ne] compl first)
  have bwd: "\<exists>c. pan b False = Inr c \<and> rate c = rate b
        \<and> length (left c) = ?n \<and> length (right c) = ?n
        \<and> (\<forall>i < ?n. left c ! i = left b ! i * pan_factor False ?n i \<and>
              right c ! i = right b ! i * (1 - pan_factor False ?n i))"
    by (simp add: pan_ok [OF assms(1) ne] compl)
  have unf: "pan_factor False ?n i = real i / (real ?n - 1)" for i
    by (simp add: pan_factor_def)
  from fwd bwd show ?thesis
    unfolding unf by (rule conjI)
qed

theorem pan_crossfade_witness:
  "\<exists>c. pan \<lparr>rate = 8000, left = [1, 1, 1], right = [1, 1, 1]\<rparr> True = Inr c
     \<and> rate c = 8000 \<and> left c ! 0 = 1 \<and> left c ! 1 = 1 / 2 \<and> left c ! 2 = 0
     \<and> right c ! 0 = 0 \<and> right c ! 1 = 1 / 2 \<and> right c ! 2 = 1"
proof -
  let ?b = "\<lparr>rate = 8000, left = [1, 1, 1], right = [1, 1, 1 :: real]\<rparr>"
  have "length (left ?b) = length (right ?b)" and "1 < length (left ?b)"
    by simp_all
  from pan_crossfade [OF this] obtain c where
    c: "pan ?b True = Inr c" "rate c = rate ?b"
      "\<forall>i < length (left ?b).
          left c ! i = left ?b ! i * (1 - real i / (real (length (left ?b)) - 1)) \<and>
          right c ! i = right ?b ! i * (real i / (real (length (left ?b)) - 1))"
    by blast
  from c(3) [rule_format, of 0] have "left c ! 0 = 1 \<and> right c ! 0 = 0" by simp
  moreover from c(3) [rule_format, of 1] have "left c ! 1 = 1 / 2 \<and> right c ! 1 = 1 / 2" by simp
  moreover from c(3) [rule_format, of 2] have "left c ! 2 = 0 \<and> right c ! 2 = 1" by simp
  ultimately show ?thesis using c(1,2) by simp
qed

text \<open>
  C4, as the code has it. A buffer whose left channel has exactly one sample makes
  \<open>pan\<close> divide by zero, in either direction and whatever the right channel is. A buffer
  whose left channel is empty never enters the loop: no division is made and the buffer
  is returned as it is.
\<close>

theorem pan_degenerate:
  "(length (left b) = 1 \<longrightarrow> pan b ltr = Inl ZeroDivisionError)
   \<and> (length (left b) = 0 \<longrightarrow> pan b ltr = Inr b)"
proof -
  have "pan b ltr = Inl ZeroDivisionError" if "length (left b) = 1"
  proof -
    from that obtain x where "left b = [x]" by (cases "left b") auto
    then show ?thesis
      by (cases ltr) (simp_all add: pan_def py_range_def py_index_def)
  qed
  moreover have "pan b ltr = Inr b" if "length (left b) = 0"
    using that by (simp add: pan_def py_range_def)
  ultimately show ?thesis by blast
qed

theorem pan_degenerate_witness:
  "pan \<lparr>rate = 8000, left = [1 / 2], right = [1 / 2]\<rparr> True = Inl ZeroDivisionError
   \<and> pan \<lparr>rate = 8000, left = [1 / 2], right = []\<rparr> False = Inl ZeroDivisionError
   \<and> pan \<lparr>rate = 8000, left = [], right = []\<rparr> False = Inr \<lparr>rate = 8000, left = [], right = []\<rparr>"
  using pan_degenerate [of "\<lparr>rate = 8000, left = [1 / 2], right = [1 / 2]\<rparr>" True]
    pan_degenerate [of "\<lparr>rate = 8000, left = [1 / 2], right = []\<rparr>" False]
    pan_degenerate [of "\<lparr>rate = 8000, left = [], right = []\<rparr>" False]
  by simp

text \<open>
  The claim C4 as stated also covers \<open>n = 0\<close>: there \<open>pan\<close> returns a buffer.
\<close>

theorem pan_empty_counterexample:
  "pan \<lparr>rate = 8000, left = [], right = []\<rparr> True = Inr \<lparr>rate = 8000, left = [], right = []\<rparr>"
  by (simp add: pan_def py_range_def)

section \<open>Echo\<close>

lemma multiply_list_map: "multiply_list xs c = map (\<lambda>x. x * c) xs"
  by (induction xs) simp_all

lemma nth_padded:
  "j < length xs + k \<Longrightarrow> (xs @ replicate k (0::real)) ! j = (if j < length xs then xs ! j else 0)"
  by (simp add: nth_append)

lemma echo_sum_Suc: "echo_sum xs d scale (Suc m) i = echo_sum xs d scale m i + echo_term xs d scale m i"
  by (simp add: echo_sum_def)

lemma echo_sum_beyond: "length xs + m * d \<le> i \<Longrightarrow> echo_sum xs d scale m i = 0"
proof (induction m)
  case 0
  show ?case by (simp add: echo_sum_def)
next
  case (Suc m)
  from Suc.prems have "length xs + m * d \<le> i" by simp
  moreover from Suc.prems have "echo_term xs d scale m i = 0"
    by (auto simp: echo_term_def algebra_simps)
  ultimately show ?case using Suc.IH by (simp add: echo_sum_Suc)
qed

lemma length_echo_channel [simp]: "length (echo_channel xs d scale m) = length xs + m * d"
  by (simp add: echo_channel_def)

lemma echo_channel_0: "echo_channel xs d scale 0 = xs"
  by (simp add: echo_channel_def echo_sum_def map_nth)

lemma echo_inner_ok:
  assumes "distinct idx"
    and "\<forall>i\<in>set idx. i < length l \<and> i < length r
           \<and> (d * (1 + num) \<le> i \<longrightarrow> i - d * (1 + num) < length le \<and> i - d * (1 + num) < length re)"
  shows "echo_inner (int d) num le re idx (l, r) =
     Inr (map (\<lambda>j. if j \<in> set idx then (if d * (1 + num) \<le> j then l ! j + le ! (j - d * (1 + num)) else l ! j)
                   else l ! j) [0..<length l],
          map (\<lambda>j. if j \<in> set idx then (if d * (1 + num) \<le> j then r ! j + re ! (j - d * (1 + num)) else r ! j)
                   else r ! j) [0..<length r])"
  using assms
proof (induction idx arbitrary: l r)
  case Nil
  show ?case by (simp add: map_nth)
next
  case (Cons i idx)
  let ?t = "d * (1 + num)"
  let ?gl = "\<lambda>j x. if ?t \<le> j then x + le ! (j - ?t) else x"
  let ?gr = "\<lambda>j x. if ?t \<le> j then x + re ! (j - ?t) else x"
  have i: "i < length l" "i < length r" "i \<notin> set idx" "distinct idx"
    using Cons.prems by simp_all
  have bound: "?t \<le> i \<Longrightarrow> i - ?t < length le \<and> i - ?t < length re"
    using Cons.prems by simp
  let ?l = "l[i := ?gl i (l ! i)]"
  let ?r = "r[i := ?gr i (r ! i)]"
  have thr: "int d * (1 + int num) = int ?t" by (simp add: algebra_simps)
  have step: "echo_inner (int d) num le re (i # idx) (l, r) = echo_inner (int d) num le re idx (?l, ?r)"
  proof (cases "?t \<le> i")
    case True
    have sub: "int i - int d * (1 + int num) = int (i - ?t)"
      unfolding thr using True by (simp only: of_nat_diff)
    have cond: "int d * (1 + int num) \<le> int i"
      unfolding thr using True by (simp only: of_nat_le_iff)
    have "echo_inner (int d) num le re (i # idx) (l, r) =
        bind_err (py_index l (int i)) (\<lambda>a.
        bind_err (py_index le (int (i - ?t))) (\<lambda>a'.
        bind_err (py_setitem l i (a + a')) (\<lambda>l'.
        bind_err (py_index r (int i)) (\<lambda>b.
        bind_err (py_index re (int (i - ?t))) (\<lambda>b'.
        bind_err (py_setitem r i (b + b')) (\<lambda>r'.
        echo_inner (int d) num le re idx (l', r')))))))"
      by (simp only: echo_inner.simps cond if_True sub)
    also have "\<dots> = echo_inner (int d) num le re idx (?l, ?r)"
      using True i bound [OF True] by (simp only: py_index_nat if_True bind_err_Inr py_setitem_ok)
    finally show ?thesis .
  next
    case False
    have cond: "\<not> int d * (1 + int num) \<le> int i"
      unfolding thr using False by (simp only: of_nat_le_iff not_False_eq_True)
    have eq: "?l = l" "?r = r" using False by simp_all
    show ?thesis
      unfolding eq by (simp only: echo_inner.simps cond if_False)
  qed
  have rest: "\<forall>k\<in>set idx. k < length ?l \<and> k < length ?r
           \<and> (?t \<le> k \<longrightarrow> k - ?t < length le \<and> k - ?t < length re)"
    using Cons.prems by simp
  note step
  also have "echo_inner (int d) num le re idx (?l, ?r) =
     Inr (map (\<lambda>j. if j \<in> set idx then ?gl j (?l ! j) else ?l ! j) [0..<length l],
          map (\<lambda>j. if j \<in> set idx then ?gr j (?r ! j) else ?r ! j) [0..<length r])"
    using Cons.IH [OF i(4) rest] by simp
  also have "map (\<lambda>j. if j \<in> set idx then ?gl j (?l ! j) else ?l ! j) [0..<length l]
     = map (\<lambda>j. if j \<in> set (i # idx) then ?gl j (l ! j) else l ! j) [0..<length l]"
    by (rule map_update_step [OF i(3) i(1)])
  also have "map (\<lambda>j. if j \<in> set idx then ?gr j (?r ! j) else ?r ! j) [0..<length r]
     = map (\<lambda>j. if j \<in> set (i # idx) then ?gr j (r ! j) else r ! j) [0..<length r]"
    by (rule map_update_step [OF i(3) i(2)])
  finally show ?case .
qed


lemma length_multiply_list [simp]: "length (multiply_list xs c) = length xs"
  by (simp add: multiply_list_map)

lemma echo_point:
  assumes "j < length xs + m * d + d"
  shows "(if d * (1 + m) \<le> j
          then (echo_channel xs d scale m @ replicate d 0) ! j
               + multiply_list xs (scale ^ (1 + m)) ! (j - d * (1 + m))
          else (echo_channel xs d scale m @ replicate d 0) ! j)
       = (xs @ replicate (Suc m * d) 0) ! j + echo_sum xs d scale (Suc m) j"
proof -
  let ?P = "(echo_channel xs d scale m @ replicate d 0) ! j"
  have pad: "(xs @ replicate (Suc m * d) 0) ! j = (if j < length xs then xs ! j else 0)"
    using assms by (intro nth_padded) simp
  have P: "?P = (if j < length xs then xs ! j else 0) + echo_sum xs d scale m j"
  proof (cases "j < length xs + m * d")
    case True
    then have "?P = (xs @ replicate (m * d) 0) ! j + echo_sum xs d scale m j"
      by (simp add: nth_append echo_channel_def)
    then show ?thesis using nth_padded [OF True] by simp
  next
    case False
    then have "?P = 0" using assms by (simp add: nth_append)
    moreover from False have "echo_sum xs d scale m j = 0" by (simp add: echo_sum_beyond)
    moreover from False have "\<not> j < length xs" by simp
    ultimately show ?thesis by simp
  qed
  have T: "echo_term xs d scale m j =
      (if d * (1 + m) \<le> j then multiply_list xs (scale ^ (1 + m)) ! (j - d * (1 + m)) else 0)"
  proof (cases "d * (1 + m) \<le> j")
    case True
    with assms have "j - d * (1 + m) < length xs" by (simp add: algebra_simps)
    with True show ?thesis by (simp add: echo_term_def multiply_list_map)
  next
    case False
    then show ?thesis by (simp add: echo_term_def)
  qed
  show ?thesis
    unfolding pad echo_sum_Suc T P by simp
qed

lemma echo_channel_step:
  "map (\<lambda>j. if j \<in> set [0..<length xs + m * d + d]
             then (if d * (1 + m) \<le> j
                   then (echo_channel xs d scale m @ replicate d 0) ! j
                        + multiply_list xs (scale ^ (1 + m)) ! (j - d * (1 + m))
                   else (echo_channel xs d scale m @ replicate d 0) ! j)
             else (echo_channel xs d scale m @ replicate d 0) ! j)
     [0..<length xs + m * d + d]
   = echo_channel xs d scale (Suc m)"
proof -
  let ?N = "length xs + m * d + d"
  define F where "F = (\<lambda>j. if j \<in> set [0..<?N]
             then (if d * (1 + m) \<le> j
                   then (echo_channel xs d scale m @ replicate d 0) ! j
                        + multiply_list xs (scale ^ (1 + m)) ! (j - d * (1 + m))
                   else (echo_channel xs d scale m @ replicate d 0) ! j)
             else (echo_channel xs d scale m @ replicate d 0) ! j)"
  have Fj: "F j = (xs @ replicate (Suc m * d) 0) ! j + echo_sum xs d scale (Suc m) j"
    if "j < ?N" for j
  proof -
    have mem: "j \<in> set [0..<?N]" using that by simp
    show ?thesis
      unfolding F_def using echo_point [OF that, of scale] by (simp only: mem if_True)
  qed
  have N: "length xs + Suc m * d = ?N" by simp
  have "map F [0..<?N] = echo_channel xs d scale (Suc m)"
    unfolding echo_channel_def N by (rule map_cong [OF refl]) (simp add: Fj)
  then show ?thesis unfolding F_def .
qed


lemma echo_inner_channels:
  assumes "length xs = length ys"
  shows "echo_inner (int d) m (multiply_list xs (scale ^ (1 + m))) (multiply_list ys (scale ^ (1 + m)))
           [0..<length xs + m * d + d]
           (echo_channel xs d scale m @ replicate d 0, echo_channel ys d scale m @ replicate d 0)
       = Inr (echo_channel xs d scale (Suc m), echo_channel ys d scale (Suc m))"
proof -
  let ?N = "length xs + m * d + d"
  let ?l = "echo_channel xs d scale m @ replicate d 0"
  let ?r = "echo_channel ys d scale m @ replicate d 0"
  let ?le = "multiply_list xs (scale ^ (1 + m))"
  let ?re = "multiply_list ys (scale ^ (1 + m))"
  have len: "length ?l = ?N" "length ?r = ?N"
    using assms by simp_all
  have N': "length ys + m * d + d = ?N" using assms by simp
  have cond: "\<forall>i\<in>set [0..<?N]. i < length ?l \<and> i < length ?r
       \<and> (d * (1 + m) \<le> i \<longrightarrow> i - d * (1 + m) < length ?le \<and> i - d * (1 + m) < length ?re)"
    using assms by (auto simp: algebra_simps)
  have "echo_inner (int d) m ?le ?re [0..<?N] (?l, ?r) =
     Inr (map (\<lambda>j. if j \<in> set [0..<?N]
                    then (if d * (1 + m) \<le> j then ?l ! j + ?le ! (j - d * (1 + m)) else ?l ! j)
                    else ?l ! j) [0..<?N],
          map (\<lambda>j. if j \<in> set [0..<?N]
                    then (if d * (1 + m) \<le> j then ?r ! j + ?re ! (j - d * (1 + m)) else ?r ! j)
                    else ?r ! j) [0..<?N])"
    using echo_inner_ok [OF distinct_upt cond] unfolding len .
  also have "map (\<lambda>j. if j \<in> set [0..<?N]
                    then (if d * (1 + m) \<le> j then ?l ! j + ?le ! (j - d * (1 + m)) else ?l ! j)
                    else ?l ! j) [0..<?N] = echo_channel xs d scale (Suc m)"
    by (rule echo_channel_step)
  also have "map (\<lambda>j. if j \<in> set [0..<?N]
                    then (if d * (1 + m) \<le> j then ?r ! j + ?re ! (j - d * (1 + m)) else ?r ! j)
                    else ?r ! j) [0..<?N] = echo_channel ys d scale (Suc m)"
    using echo_channel_step [of ys m d scale] unfolding N' .
  finally show ?thesis .
qed

lemma py_pow_ok: "\<not> overflows (x ^ k) \<Longrightarrow> py_pow x k = Inr (x ^ k)"
  by (simp add: py_pow_def)

lemma not_overflows_exact: "to_double x = x \<Longrightarrow> \<bar>x\<bar> < 2 ^ 1024 \<Longrightarrow> \<not> overflows x"
  by (simp add: overflows_def)

lemma py_float_small:
  assumes "\<bar>n\<bar> < 2 ^ 53"
  shows "py_float n = Inr (real_of_int n)"
proof -
  have exact: "to_double (real_of_int n) = real_of_int n"
    using assms by (rule to_double_of_int)
  have "real_of_int \<bar>n\<bar> < real_of_int (2 ^ 53)" using assms by (simp only: of_int_less_iff)
  then have "\<bar>real_of_int n\<bar> < 2 ^ 1024" by simp
  with exact have "\<not> overflows (real_of_int n)" by (rule not_overflows_exact)
  then show ?thesis by (simp add: py_float_def exact)
qed

lemma overflows_beyond:
  assumes "2 ^ 1024 \<le> \<bar>x\<bar>"
  shows "overflows x"
proof -
  have big: "to_double (2 ^ 1024) = 2 ^ 1024"
    using to_double_exact [of "2 ^ 1024" 1 1024] by simp
  show ?thesis
  proof (cases "0 \<le> x")
    case True
    with assms have "2 ^ 1024 \<le> x" by simp
    then have "to_double (2 ^ 1024) \<le> to_double x" by (rule to_double_mono)
    then show ?thesis unfolding big overflows_def by linarith
  next
    case False
    with assms have "2 ^ 1024 \<le> - x" by simp
    then have "to_double (2 ^ 1024) \<le> to_double (- x)" by (rule to_double_mono)
    then show ?thesis unfolding big overflows_def to_double_uminus by linarith
  qed
qed

text \<open>
  The two ways \<open>echo\<close> raises \<^verbatim>\<open>OverflowError\<close>: a product of delay and rate beyond
  the doubles cannot be rounded, even when no echo is asked for; and the power of the
  scale may overflow at a later repetition, here the second.
\<close>

lemma echo_delay_overflow:
  "echo \<lparr>rate = 4, left = [], right = []\<rparr> 0 (2 ^ 1023) 1 = Inl OverflowError"
proof -
  have "py_float 4 = Inr 4"
    using py_float_small [of 4] by simp
  moreover have "overflows (2 ^ 1023 * 4)"
    by (rule overflows_beyond) simp
  ultimately show ?thesis
    by (simp add: echo_def py_mul_def py_round_float_def)
qed

lemma echo_power_overflow:
  "echo \<lparr>rate = 1, left = [1], right = [1]\<rparr> 2 1 (2 ^ 600) = Inl OverflowError"
proof -
  have one: "py_float 1 = Inr 1"
    using py_float_small [of 1] by simp
  have t1: "to_double 1 = 1"
    using to_double_of_int [of 1] by simp
  have mul: "py_mul 1 1 = Some 1"
    by (simp add: py_mul_def overflows_def t1)
  have rnd: "py_round 1 = 1"
    using py_round_of_int [of 1] by simp
  define s :: real where "s = 2 ^ 600"
  have "to_double s = s"
    using to_double_exact [of "2 ^ 600" 1 600] by (simp add: s_def)
  then have "\<not> overflows s"
    by (rule not_overflows_exact) (simp add: s_def)
  then have first: "py_pow s (Suc 0) = Inr s"
    by (simp add: py_pow_def)
  have "overflows (s ^ 2)"
    by (rule overflows_beyond) (simp add: s_def)
  then have second: "py_pow s (Suc (Suc 0)) = Inl OverflowError"
    by (simp add: py_pow_def numeral_2_eq_2)
  have "echo \<lparr>rate = 1, left = [1], right = [1]\<rparr> 2 1 s = Inl OverflowError"
    by (simp add: echo_def one mul py_round_float_def rnd echo_loop.simps first second
        py_range_def py_index_def py_setitem_def Let_def)
  then show ?thesis unfolding s_def .
qed

lemma echo_loop_invariant:
  assumes "length (left b) = length (right b)"
  shows "int m + int k = num_echos \<Longrightarrow> (\<forall>i. m \<le> i \<and> i < m + k \<longrightarrow> \<not> overflows (scale ^ (1 + i))) \<Longrightarrow>
     echo_loop b num_echos (int d) scale m
       (echo_channel (left b) d scale m, echo_channel (right b) d scale m)
     = Inr (echo_channel (left b) d scale (m + k), echo_channel (right b) d scale (m + k))"
proof (induction k arbitrary: m)
  case 0
  then have "\<not> int m < num_echos" by simp
  then show ?case by (simp add: echo_loop.simps)
next
  case (Suc k)
  from Suc.prems(1) have run: "int m < num_echos" and nxt: "int (Suc m) + int k = num_echos"
    by simp_all
  from Suc.prems(2) have "\<not> overflows (scale ^ (1 + m))" by simp
  then have pow: "py_pow scale (1 + m) = Inr (scale ^ (1 + m))" by (rule py_pow_ok)
  from Suc.prems(2)
  have rest: "\<forall>i. Suc m \<le> i \<and> i < Suc m + k \<longrightarrow> \<not> overflows (scale ^ (1 + i))" by simp
  have "echo_loop b num_echos (int d) scale m
       (echo_channel (left b) d scale m, echo_channel (right b) d scale m)
     = echo_loop b num_echos (int d) scale (Suc m)
       (echo_channel (left b) d scale (Suc m), echo_channel (right b) d scale (Suc m))"
    using run pow echo_inner_channels [OF assms, of d m scale]
    by (subst echo_loop.simps) (simp add: Let_def py_range_def)
  also have "\<dots> = Inr (echo_channel (left b) d scale (Suc m + k), echo_channel (right b) d scale (Suc m + k))"
    by (rule Suc.IH [OF nxt rest])
  finally show ?case by simp
qed

lemma echo_zero:
  assumes "\<not> overflows (real_of_int (rate b))"
    and "\<not> overflows (delay * to_double (real_of_int (rate b)))"
  shows "echo b 0 delay scale = Inr b"
  using assms
  by (simp add: echo_def py_float_def py_mul_def py_round_float_def echo_loop.simps)

lemma echo_ok:
  assumes "length (left b) = length (right b)"
    and "\<not> overflows (real_of_int (rate b))"
    and "\<not> overflows (delay * to_double (real_of_int (rate b)))"
    and "py_round (to_double (delay * to_double (real_of_int (rate b)))) = int d"
    and "num_echos = int m"
    and "\<forall>k<m. \<not> overflows (scale ^ (k + 1))"
  shows "echo b num_echos delay scale =
     Inr \<lparr>rate = rate b, left = echo_channel (left b) d scale m,
           right = echo_channel (right b) d scale m\<rparr>"
proof -
  have "int 0 + int m = num_echos" using assms(5) by simp
  moreover have "\<forall>i. 0 \<le> i \<and> i < 0 + m \<longrightarrow> \<not> overflows (scale ^ (1 + i))"
    using assms(6) by simp
  ultimately have "echo_loop b num_echos (int d) scale 0
       (echo_channel (left b) d scale 0, echo_channel (right b) d scale 0)
      = Inr (echo_channel (left b) d scale (0 + m), echo_channel (right b) d scale (0 + m))"
    by (rule echo_loop_invariant [OF assms(1)])
  then have "echo_loop b num_echos (int d) scale 0 (left b, right b)
      = Inr (echo_channel (left b) d scale m, echo_channel (right b) d scale m)"
    by (simp add: echo_channel_0)
  then show ?thesis
    using assms(2,3)
    by (simp add: echo_def py_float_def py_mul_def py_round_float_def assms(4))
qed




section \<open>Encoding and decoding\<close>

lemma unpack_pack:
  assumes "- 32768 \<le> v" and "v \<le> 32767"
  shows "unpack_h [word_of_int v, word_of_int (v div 256)] = Inr v"
proof -
  have lo: "uint (word_of_int v :: byte) = v mod 256"
    by (simp add: uint_word_of_int)
  have "- 128 \<le> v div 256" and "v div 256 < 128"
    using assms by auto
  then have hi: "sint (word_of_int (v div 256) :: byte) = v div 256"
    by (simp add: sint_sbintrunc' signed_take_bit_int_eq_self)
  show ?thesis
    by (simp add: unpack_h_def lo hi)
qed


lemma clamp_bounds: "- 1 \<le> max (- 1) (min 1 x) \<and> max (- 1) (min 1 x) \<le> (1::real)"
  by auto

lemma py_int_nonneg: "0 \<le> y \<Longrightarrow> py_int y = \<lfloor>y\<rfloor>"
  by (simp add: py_int_def)

lemma py_int_neg: "y < 0 \<Longrightarrow> py_int y = \<lceil>y\<rceil>"
  by (simp add: py_int_def)

lemma py_int_nonpos: "y \<le> 0 \<Longrightarrow> py_int y = \<lceil>y\<rceil>"
  by (cases "y = 0") (simp_all add: py_int_def)

lemma py_int_between:
  assumes "real_of_int lo \<le> f" and "f \<le> real_of_int hi"
  shows "lo \<le> py_int f \<and> py_int f \<le> hi"
proof (cases "0 \<le> f")
  case True
  have "lo \<le> \<lfloor>f\<rfloor>" using assms(1) by (simp add: le_floor_iff)
  moreover have "\<lfloor>f\<rfloor> \<le> hi" using assms(2) by (simp add: floor_le_iff)
  ultimately show ?thesis unfolding py_int_nonneg [OF True] by simp
next
  case False
  then have neg: "f < 0" by simp
  have "lo \<le> \<lceil>f\<rceil>" using assms(1) by (simp add: le_ceiling_iff)
  moreover have "\<lceil>f\<rceil> \<le> hi" using assms(2) by (simp add: ceiling_le_iff)
  ultimately show ?thesis unfolding py_int_neg [OF neg] by simp
qed

lemma to_double_ge_int:
  assumes "\<bar>n\<bar> < 2 ^ 53" and "real_of_int n \<le> y"
  shows "real_of_int n \<le> to_double y"
  using to_double_mono [OF assms(2)] to_double_of_int [OF assms(1)] by simp

lemma to_double_le_int:
  assumes "\<bar>n\<bar> < 2 ^ 53" and "y \<le> real_of_int n"
  shows "to_double y \<le> real_of_int n"
  using to_double_mono [OF assms(2)] to_double_of_int [OF assms(1)] by simp

lemma to_double_nonpos: "x \<le> 0 \<Longrightarrow> to_double x \<le> 0"
  using to_double_mono [of x 0] by simp

lemma scaled_bounds:
  "- 32767 \<le> max (- 1) (min 1 x) * (2 ^ 15 - 1) \<and> max (- 1) (min 1 x) * (2 ^ 15 - 1) \<le> (32767::real)"
  using clamp_bounds [of x] by simp

lemma encode_sample_floor_ceiling:
  "\<lfloor>max (- 1) (min 1 x) * (2 ^ 15 - 1)\<rfloor> \<le> encode_sample x
   \<and> encode_sample x \<le> \<lceil>max (- 1) (min 1 x) * (2 ^ 15 - 1)\<rceil>"
proof -
  let ?y = "max (- 1) (min 1 x) * (2 ^ 15 - 1) :: real"
  have big: "(2::int) ^ 53 = 9007199254740992" by simp
  have "- 32767 \<le> \<lfloor>?y\<rfloor>" and "\<lfloor>?y\<rfloor> \<le> 32767"
    using scaled_bounds [of x] by (simp_all add: le_floor_iff floor_le_iff)
  then have lo: "\<bar>\<lfloor>?y\<rfloor>\<bar> < 2 ^ 53" unfolding big by linarith
  have "- 32767 \<le> \<lceil>?y\<rceil>" and "\<lceil>?y\<rceil> \<le> 32767"
    using scaled_bounds [of x] by (simp_all add: le_ceiling_iff ceiling_le_iff)
  then have hi: "\<bar>\<lceil>?y\<rceil>\<bar> < 2 ^ 53" unfolding big by linarith
  have "real_of_int \<lfloor>?y\<rfloor> \<le> to_double ?y"
    using lo by (rule to_double_ge_int) simp
  moreover have "to_double ?y \<le> real_of_int \<lceil>?y\<rceil>"
    using hi by (rule to_double_le_int) simp
  ultimately show ?thesis
    unfolding encode_sample_def by (rule py_int_between)
qed

lemma encode_sample_range: "- 32767 \<le> encode_sample x \<and> encode_sample x \<le> 32767"
proof -
  let ?y = "max (- 1) (min 1 x) * (2 ^ 15 - 1) :: real"
  have "- 32767 \<le> \<lfloor>?y\<rfloor>"
    using scaled_bounds [of x] by (simp add: le_floor_iff)
  moreover have "\<lceil>?y\<rceil> \<le> 32767"
    using scaled_bounds [of x] by (simp add: ceiling_le_iff)
  ultimately show ?thesis
    using encode_sample_floor_ceiling [of x] by linarith
qed

lemma encode_sample_error:
  "\<bar>real_of_int (encode_sample x) - max (- 1) (min 1 x) * (2 ^ 15 - 1)\<bar> < 1"
proof -
  let ?y = "max (- 1) (min 1 x) * (2 ^ 15 - 1) :: real"
  have "?y - 1 < real_of_int \<lfloor>?y\<rfloor>" and "real_of_int \<lceil>?y\<rceil> < ?y + 1"
    by linarith+
  moreover have "real_of_int \<lfloor>?y\<rfloor> \<le> real_of_int (encode_sample x)"
    and "real_of_int (encode_sample x) \<le> real_of_int \<lceil>?y\<rceil>"
    using encode_sample_floor_ceiling [of x] by (simp_all only: of_int_le_iff)
  ultimately show ?thesis by linarith
qed

lemma scaled_no_overflow: "\<not> overflows (max (- 1) (min 1 x) * (2 ^ 15 - 1))"
proof -
  let ?y = "max (- 1) (min 1 x) * (2 ^ 15 - 1) :: real"
  have "real_of_int (- 32767) \<le> to_double ?y"
    using scaled_bounds [of x] by (intro to_double_ge_int) simp_all
  moreover have "to_double ?y \<le> real_of_int 32767"
    using scaled_bounds [of x] by (intro to_double_le_int) simp_all
  ultimately have "\<bar>to_double ?y\<bar> \<le> 32767" by simp
  then have "\<bar>to_double ?y\<bar> < 2 ^ 1024" by simp
  then show ?thesis by (simp add: overflows_def)
qed

lemma py_int_error: "\<bar>real_of_int (py_int y) - y\<bar> < 1"
proof (cases "0 \<le> y")
  case True
  show ?thesis unfolding py_int_nonneg [OF True] by linarith
next
  case False
  then have neg: "y < 0" by simp
  show ?thesis unfolding py_int_neg [OF neg] by linarith
qed

lemma py_int_towards_zero: "\<bar>real_of_int (py_int y)\<bar> \<le> \<bar>y\<bar>"
proof (cases "0 \<le> y")
  case True
  then have "0 \<le> \<lfloor>y\<rfloor>" by simp
  then show ?thesis unfolding py_int_nonneg [OF True] using True by linarith
next
  case False
  then have neg: "y < 0" by simp
  then have "\<lceil>y\<rceil> \<le> 0" by (simp add: ceiling_le_iff)
  then show ?thesis unfolding py_int_neg [OF neg] using neg by linarith
qed

lemma roundtrip_sample:
  assumes "- 1 \<le> x" and "x \<le> 1"
  shows "\<bar>decode_sample (encode_sample x) - x\<bar> < 2 / 2 ^ 15"
proof -
  let ?q = "real_of_int (encode_sample x)"
  have clamp: "max (- 1) (min 1 x) = x" using assms by simp
  have "\<bar>?q - x * (2 ^ 15 - 1)\<bar> < 1"
    using encode_sample_error [of x] unfolding clamp .
  then have "- 2 < ?q - 32768 * x" and "?q - 32768 * x < 2"
    using assms by simp_all
  moreover have "decode_sample (encode_sample x) = ?q / 32768"
    by (simp add: decode_sample_def)
  moreover have "(2::real) / 2 ^ 15 = 1 / 16384" by simp
  ultimately show ?thesis
    by linarith
qed

lemma to_double_quarter_scaled: "to_double (32767 / 4) = 32767 / 4"
  using to_double_exact [of "32767 / 4" 32767 "- 2"] by (simp add: power_int_minus)

lemma to_double_below_one:
  "to_double (1152921504606846975 / 1152921504606846976) = 1"
proof -
  let ?y = "1152921504606846975 / 1152921504606846976 :: real"
  have "to_double ?y = real_of_int (py_round (?y / 2 powi (- 1 - 52))) * 2 powi (- 1 - 52)"
    by (rule to_double_binade) (simp_all add: power_int_minus)
  moreover have "?y / 2 powi (- 1 - 52) = 1152921504606846975 / 128"
    by (simp add: power_int_minus)
  moreover have "py_round (1152921504606846975 / 128) = 9007199254740992"
    by (simp add: py_round_def)
  ultimately show ?thesis by (simp add: power_int_minus)
qed

lemma encode_sample_quarter: "encode_sample (1 / 4) = 8191"
  by (simp add: encode_sample_def to_double_quarter_scaled py_int_def)

lemma pack_h_encode:
  "pack_h (encode_sample x) = Inr [word_of_int (encode_sample x), word_of_int (encode_sample x div 256)]"
  using encode_sample_range [of x] by (simp add: pack_h_def)

lemma unpack_h_encode:
  "unpack_h [word_of_int (encode_sample x), word_of_int (encode_sample x div 256)] = Inr (encode_sample x)"
  using encode_sample_range [of x] by (intro unpack_pack) simp_all

lemma write_loop_eq:
  "write_loop ps out = out @ concat (map (\<lambda>(l, r). [encode_sample l, encode_sample r]) ps)"
  by (induction ps arbitrary: out) auto

lemma pack_frames_encoded:
  "pack_frames (concat (map (\<lambda>(l, r). [encode_sample l, encode_sample r]) ps)) =
     Inr (concat (map (\<lambda>(l, r).
       [word_of_int (encode_sample l), word_of_int (encode_sample l div 256),
        word_of_int (encode_sample r), word_of_int (encode_sample r div 256)]) ps))"
  by (induction ps) (auto simp: pack_h_encode)

lemma read_frames_encoded:
  "length idx = length ps \<Longrightarrow>
   read_frames 2 4 idx (concat (map (\<lambda>(l, r).
       [word_of_int (encode_sample l), word_of_int (encode_sample l div 256),
        word_of_int (encode_sample r), word_of_int (encode_sample r div 256)]) ps)) (ls, rs)
     = Inr (ls @ map (\<lambda>(l, r). encode_sample l) ps, rs @ map (\<lambda>(l, r). encode_sample r) ps)"
proof (induction ps arbitrary: idx ls rs)
  case Nil
  then show ?case by simp
next
  case (Cons p ps)
  obtain l r where p: "p = (l, r)" by (cases p)
  from Cons.prems obtain i rest where idx: "idx = i # rest" and len: "length rest = length ps"
    by (cases idx) auto
  show ?case
    by (simp add: idx p Cons.IH [OF len] unpack_h_encode)
qed

lemma length_frames_encoded:
  "length (concat (map (\<lambda>(l, r).
       [word_of_int (encode_sample l) :: byte, word_of_int (encode_sample l div 256),
        word_of_int (encode_sample r), word_of_int (encode_sample r div 256)]) ps)) = 4 * length ps"
  by (induction ps) auto

lemma write_wav_ok:
  assumes "0 < rate b"
  shows "write_wav fs b filename =
     Inr (fs(filename \<mapsto> WaveFile \<lparr>nchannels = 2, sampwidth = 2, framerate = rate b,
       frames = concat (map (\<lambda>(l, r).
         [word_of_int (encode_sample l), word_of_int (encode_sample l div 256),
          word_of_int (encode_sample r), word_of_int (encode_sample r div 256)])
         (zip (left b) (right b)))\<rparr>))"
  using assms
  by (simp add: write_wav_def Let_def write_loop_eq pack_frames_encoded wave_setparams_def
      wave_writeframes_def)

lemma load_written:
  assumes "drop (length filename - 4) filename = ''.wav''"
  shows "load_audio (fs(filename \<mapsto> WaveFile \<lparr>nchannels = 2, sampwidth = 2, framerate = rt,
       frames = concat (map (\<lambda>(l, r).
         [word_of_int (encode_sample l), word_of_int (encode_sample l div 256),
          word_of_int (encode_sample r), word_of_int (encode_sample r div 256)]) ps)\<rparr>)) filename
     = Inr \<lparr>rate = rt, left = map (\<lambda>(l, r). decode_sample (encode_sample l)) ps,
            right = map (\<lambda>(l, r). decode_sample (encode_sample r)) ps\<rparr>"
proof -
  let ?data = "concat (map (\<lambda>(l, r).
         [word_of_int (encode_sample l) :: byte, word_of_int (encode_sample l div 256),
          word_of_int (encode_sample r), word_of_int (encode_sample r div 256)]) ps)"
  have cnt: "length ?data div 4 = length ps"
    by (simp add: length_frames_encoded)
  have "length [0..<length ps] = length ps" by simp
  from read_frames_encoded [OF this, of "[]" "[]"]
  have rd: "read_frames 2 4 [0..<length ?data div 4] ?data ([], [])
      = Inr (map (\<lambda>(l, r). encode_sample l) ps, map (\<lambda>(l, r). encode_sample r) ps)"
    unfolding cnt by simp
  show ?thesis
    using assms by (auto simp add: load_audio_def wave_open_read_def Let_def py_range_def rd)
qed

text \<open>
  C2, as the code has it. A buffer with equal-length channels, samples within \<open>[-1, 1]\<close>
  and a positive rate, written by \<open>write_wav\<close> under a name ending in \<open>.wav\<close> and loaded
  again by \<open>load_audio\<close>, comes back with the same rate and length, every sample being
  the decoding of its encoding and lying strictly within two quantization steps
  (\<open>2 / 2^15\<close>) of the original. The encoding is the one of the code: the product with
  \<open>2^15 - 1\<close> is rounded to a double before it is truncated.
\<close>

theorem codec_roundtrip:
  assumes "length (left b) = length (right b)"
    and "\<forall>x \<in> set (left b) \<union> set (right b). - 1 \<le> x \<and> x \<le> 1"
    and "0 < rate b"
    and "drop (length filename - 4) filename = ''.wav''"
  shows "\<exists>fs' c. write_wav fs b filename = Inr fs' \<and> load_audio fs' filename = Inr c
      \<and> rate c = rate b
      \<and> length (left c) = length (left b) \<and> length (right c) = length (right b)
      \<and> (\<forall>i < length (left b).
            left c ! i = decode_sample (encode_sample (left b ! i)) \<and>
            right c ! i = decode_sample (encode_sample (right b ! i)) \<and>
            \<bar>left c ! i - left b ! i\<bar> < 2 / 2 ^ 15 \<and>
            \<bar>right c ! i - right b ! i\<bar> < 2 / 2 ^ 15)"
proof -
  let ?c = "\<lparr>rate = rate b, left = map (\<lambda>(l, r). decode_sample (encode_sample l)) (zip (left b) (right b)),
            right = map (\<lambda>(l, r). decode_sample (encode_sample r)) (zip (left b) (right b))\<rparr>"
  have bound: "\<bar>decode_sample (encode_sample (left b ! i)) - left b ! i\<bar> < 2 / 2 ^ 15
      \<and> \<bar>decode_sample (encode_sample (right b ! i)) - right b ! i\<bar> < 2 / 2 ^ 15"
    if "i < length (left b)" for i
  proof -
    from that assms(1) have "left b ! i \<in> set (left b)" and "right b ! i \<in> set (right b)"
      by simp_all
    with assms(2) have "- 1 \<le> left b ! i \<and> left b ! i \<le> 1" "- 1 \<le> right b ! i \<and> right b ! i \<le> 1"
      by blast+
    then show ?thesis by (intro conjI roundtrip_sample) simp_all
  qed
  have "load_audio (the_fs) filename = Inr ?c"
    if "write_wav fs b filename = Inr the_fs" for the_fs
    using that unfolding write_wav_ok [OF assms(3)] by (auto simp: load_written [OF assms(4)])
  then show ?thesis
    using assms(1) bound by (simp add: write_wav_ok [OF assms(3)])
qed

theorem codec_roundtrip_witness:
  "\<exists>fs' c. write_wav Map.empty \<lparr>rate = 8000, left = [1 / 2, - 1], right = [- 1 / 4, 1]\<rparr> ''a.wav'' = Inr fs'
     \<and> load_audio fs' ''a.wav'' = Inr c \<and> rate c = 8000
     \<and> length (left c) = 2 \<and> length (right c) = 2
     \<and> \<bar>left c ! 0 - 1 / 2\<bar> < 2 / 2 ^ 15 \<and> \<bar>left c ! 1 - (- 1)\<bar> < 2 / 2 ^ 15
     \<and> \<bar>right c ! 0 - (- 1 / 4)\<bar> < 2 / 2 ^ 15 \<and> \<bar>right c ! 1 - 1\<bar> < 2 / 2 ^ 15"
proof -
  let ?b = "\<lparr>rate = 8000, left = [1 / 2, - 1], right = [- 1 / 4, 1 :: real]\<rparr>"
  have h: "length (left ?b) = length (right ?b)"
    "\<forall>x \<in> set (left ?b) \<union> set (right ?b). - 1 \<le> x \<and> x \<le> 1"
    "0 < rate ?b" "drop (length ''a.wav'' - 4) ''a.wav'' = ''.wav''"
    by simp_all
  from codec_roundtrip [OF h, of Map.empty] obtain fs' c where
    c: "write_wav Map.empty ?b ''a.wav'' = Inr fs'" "load_audio fs' ''a.wav'' = Inr c"
      "rate c = rate ?b" "length (left c) = length (left ?b)" "length (right c) = length (right ?b)"
      "\<forall>i < length (left ?b).
            left c ! i = decode_sample (encode_sample (left ?b ! i)) \<and>
            right c ! i = decode_sample (encode_sample (right ?b ! i)) \<and>
            \<bar>left c ! i - left ?b ! i\<bar> < 2 / 2 ^ 15 \<and>
            \<bar>right c ! i - right ?b ! i\<bar> < 2 / 2 ^ 15"
    by blast
  have i0: "0 < length (left ?b)" and i1: "1 < length (left ?b)" by simp_all
  from c(6) [rule_format, OF i0, THEN conjunct2, THEN conjunct2]
  have "\<bar>left c ! 0 - 1 / 2\<bar> < 2 / 2 ^ 15 \<and> \<bar>right c ! 0 - (- 1 / 4)\<bar> < 2 / 2 ^ 15"
    by simp
  moreover from c(6) [rule_format, OF i1, THEN conjunct2, THEN conjunct2]
  have "\<bar>left c ! 1 - (- 1)\<bar> < 2 / 2 ^ 15 \<and> \<bar>right c ! 1 - 1\<bar> < 2 / 2 ^ 15"
    by simp
  ultimately show ?thesis using c(1-5) by simp
qed

text \<open>
  The claim C2 as stated promises one quantization step. The sample \<open>65535/65536\<close> is a
  double, and so is its product with \<open>2^15 - 1\<close>, \<open>32766.50001...\<close>; it is encoded as
  \<open>32766\<close> and decoded as \<open>16383/16384\<close>, one and a half steps away.
\<close>

theorem codec_roundtrip_counterexample:
  "bind_err (write_wav Map.empty \<lparr>rate = 8000, left = [65535 / 65536], right = [65535 / 65536]\<rparr> ''a.wav'')
     (\<lambda>fs'. load_audio fs' ''a.wav'')
     = Inr \<lparr>rate = 8000, left = [16383 / 16384], right = [16383 / 16384]\<rparr>
   \<and> 1 / 2 ^ 15 < \<bar>16383 / 16384 - 65535 / (65536 :: real)\<bar>"
proof -
  have td: "to_double (2147385345 / 65536) = 2147385345 / 65536"
    using to_double_exact [of "2147385345 / 65536" 2147385345 "- 16"]
    by (simp add: power_int_minus)
  have e: "encode_sample (65535 / 65536) = 32766"
    by (simp add: encode_sample_def py_int_def td)
  have d: "decode_sample 32766 = 16383 / 16384"
    by (simp add: decode_sample_def)
  have "drop (length ''a.wav'' - 4) ''a.wav'' = ''.wav''" by simp
  note load_written [OF this, of Map.empty 8000 "[(65535 / 65536, 65535 / 65536)]"]
  then show ?thesis
    by (simp add: write_wav_ok e d)
qed

text \<open>
  C3, as the code has it. \<open>write_wav\<close> clamps each sample to \<open>[-1, 1]\<close>, scales it by
  \<open>2^15 - 1\<close> in double arithmetic, which never overflows here, and truncates that double
  towards zero: its floor for a sample that is not negative, its ceiling for a negative
  one. The integer is never larger in magnitude than the double product and less than
  one away from it; it lies between the floor and the ceiling of the exact product, so
  less than one away from that too, and within \<open>-32767 .. 32767\<close>. It is packed as two
  bytes, low byte first, the left sample of a frame before the right one.
\<close>

theorem write_wav_truncates:
  "(0 \<le> x \<longrightarrow> encode_sample x = \<lfloor>to_double (min 1 x * (2 ^ 15 - 1))\<rfloor>)
   \<and> (x < 0 \<longrightarrow> encode_sample x = \<lceil>to_double (max (- 1) x * (2 ^ 15 - 1))\<rceil>)
   \<and> \<not> overflows (max (- 1) (min 1 x) * (2 ^ 15 - 1))
   \<and> \<bar>real_of_int (encode_sample x)\<bar> \<le> \<bar>to_double (max (- 1) (min 1 x) * (2 ^ 15 - 1))\<bar>
   \<and> \<bar>real_of_int (encode_sample x) - to_double (max (- 1) (min 1 x) * (2 ^ 15 - 1))\<bar> < 1
   \<and> \<lfloor>max (- 1) (min 1 x) * (2 ^ 15 - 1)\<rfloor> \<le> encode_sample x
   \<and> encode_sample x \<le> \<lceil>max (- 1) (min 1 x) * (2 ^ 15 - 1)\<rceil>
   \<and> \<bar>real_of_int (encode_sample x) - max (- 1) (min 1 x) * (2 ^ 15 - 1)\<bar> < 1
   \<and> - 32767 \<le> encode_sample x \<and> encode_sample x \<le> 32767
   \<and> pack_h (encode_sample x) =
       Inr [word_of_int (encode_sample x), word_of_int (encode_sample x div 256)]
   \<and> (0 < rate b \<longrightarrow>
       write_wav fs b filename =
         Inr (fs(filename \<mapsto> WaveFile \<lparr>nchannels = 2, sampwidth = 2, framerate = rate b,
           frames = concat (map (\<lambda>(l, r).
             [word_of_int (encode_sample l), word_of_int (encode_sample l div 256),
              word_of_int (encode_sample r), word_of_int (encode_sample r div 256)])
             (zip (left b) (right b)))\<rparr>)))"
proof -
  have pos: "encode_sample x = \<lfloor>to_double (min 1 x * (2 ^ 15 - 1))\<rfloor>" if "0 \<le> x"
  proof -
    from that have c: "max (- 1) (min 1 x) = min 1 x" by simp
    from that have "0 \<le> min 1 x * (2 ^ 15 - 1)" by simp
    then have "0 \<le> to_double (min 1 x * (2 ^ 15 - 1))" by (rule to_double_nonneg)
    then show ?thesis unfolding encode_sample_def c by (rule py_int_nonneg)
  qed
  have neg: "encode_sample x = \<lceil>to_double (max (- 1) x * (2 ^ 15 - 1))\<rceil>" if "x < 0"
  proof -
    from that have c: "max (- 1) (min 1 x) = max (- 1) x" by simp
    from that have "max (- 1) x * (2 ^ 15 - 1) \<le> 0"
      by (simp add: mult_nonpos_nonneg)
    then have "to_double (max (- 1) x * (2 ^ 15 - 1)) \<le> 0" by (rule to_double_nonpos)
    then show ?thesis unfolding encode_sample_def c by (rule py_int_nonpos)
  qed
  have towards: "\<bar>real_of_int (encode_sample x)\<bar> \<le> \<bar>to_double (max (- 1) (min 1 x) * (2 ^ 15 - 1))\<bar>"
    unfolding encode_sample_def by (rule py_int_towards_zero)
  have err: "\<bar>real_of_int (encode_sample x) - to_double (max (- 1) (min 1 x) * (2 ^ 15 - 1))\<bar> < 1"
    unfolding encode_sample_def by (rule py_int_error)
  from pos neg towards err scaled_no_overflow [of x] encode_sample_floor_ceiling [of x]
    encode_sample_error [of x] encode_sample_range [of x]
    pack_h_encode [of x] write_wav_ok [of b fs filename]
  show ?thesis by blast
qed

theorem write_wav_truncates_witness:
  "encode_sample (1 / 4) = 8191 \<and> encode_sample (- 1 / 4) = - 8191 \<and> encode_sample 3 = 32767
   \<and> encode_sample (35185445863425 / 1152921504606846976) = 1
   \<and> pack_h (encode_sample (- 1 / 4)) = Inr [1, 224]
   \<and> write_wav Map.empty \<lparr>rate = 8000, left = [1 / 4], right = [- 1 / 4]\<rparr> ''a.wav''
      = Inr [''a.wav'' \<mapsto> WaveFile \<lparr>nchannels = 2, sampwidth = 2, framerate = 8000,
               frames = [255, 31, 1, 224]\<rparr>]"
proof -
  have q: "to_double (- (32767 / 4)) = - (32767 / 4)"
    unfolding to_double_uminus to_double_quarter_scaled ..
  have m: "to_double 32767 = 32767"
    using to_double_of_int [of 32767] by simp
  have a: "encode_sample (1 / 4) = 8191"
    using write_wav_truncates [of "1 / 4"] by (simp add: to_double_quarter_scaled)
  have b: "encode_sample (- 1 / 4) = - 8191"
    using write_wav_truncates [of "- 1 / 4"] q by simp
  have c: "encode_sample 3 = 32767"
    using write_wav_truncates [of 3] m by simp
  have v: "encode_sample (35185445863425 / 1152921504606846976) = 1"
    using write_wav_truncates [of "35185445863425 / 1152921504606846976"]
    by (simp add: to_double_below_one)
  have d: "pack_h (encode_sample (- 1 / 4)) = Inr [1, 224]"
    using write_wav_truncates [of "- 1 / 4"] unfolding b by simp
  let ?b = "\<lparr>rate = 8000, left = [1 / 4], right = [- 1 / 4 :: real]\<rparr>"
  have "0 < rate ?b" by simp
  with write_wav_truncates [of 0 ?b Map.empty "''a.wav''"]
  have step: "write_wav Map.empty ?b ''a.wav''
      = Inr [''a.wav'' \<mapsto> WaveFile \<lparr>nchannels = 2, sampwidth = 2, framerate = rate ?b,
           frames = concat (map (\<lambda>(l, r).
             [word_of_int (encode_sample l), word_of_int (encode_sample l div 256),
              word_of_int (encode_sample r), word_of_int (encode_sample r div 256)])
             (zip (left ?b) (right ?b)))\<rparr>]"
    by blast
  have fr: "concat (map (\<lambda>(l, r).
             [word_of_int (encode_sample l), word_of_int (encode_sample l div 256),
              word_of_int (encode_sample r), word_of_int (encode_sample r div 256)])
             (zip (left ?b) (right ?b))) = [255, 31, 1, 224 :: byte]"
    using a b by simp
  from step have e: "write_wav Map.empty ?b ''a.wav''
      = Inr [''a.wav'' \<mapsto> WaveFile \<lparr>nchannels = 2, sampwidth = 2, framerate = 8000,
               frames = [255, 31, 1, 224]\<rparr>]"
    unfolding fr by simp
  from a b c v d e show ?thesis by blast
qed

text \<open>
  The claim C3 as stated says the product is rounded to the nearest integer. For the
  sample \<open>1/4\<close> the product is \<open>8191.75\<close>, a double: the code writes \<open>8191\<close>, the nearest
  integer is \<open>8192\<close>.
\<close>

theorem write_wav_rounding_counterexample:
  "encode_sample (1 / 4) = 8191 \<and> encode_sample_spec (1 / 4) = 8192"
proof -
  have "encode_sample_spec (1 / 4) = 8192"
    by (simp add: encode_sample_spec_def round_def)
  with encode_sample_quarter show ?thesis by simp
qed

section \<open>The file name check of load\_audio\<close>

lemma bind_err_InlE:
  assumes "bind_err m f = Inl e"
  obtains "m = Inl e" | x where "m = Inr x" and "f x = Inl e"
  using assms by (cases m) simp_all

lemma unpack_h_error: "unpack_h bs = Inl e \<Longrightarrow> e = StructError"
  by (auto simp: unpack_h_def split: list.splits)

lemma read_frames_error: "read_frames chan framesize idx d lr = Inl e \<Longrightarrow> e = StructError"
proof (induction idx arbitrary: d lr chan)
  case Nil
  then show ?case by (cases lr) simp
next
  case (Cons i idx)
  obtain l r where lr: "lr = (l, r)" by (cases lr)
  show ?case
  proof (cases "chan = 2")
    case True
    with Cons.prems lr show ?thesis
      by (auto simp: Let_def elim!: bind_err_InlE dest: unpack_h_error Cons.IH)
  next
    case False
    with Cons.prems lr show ?thesis
      by (auto simp: Let_def elim!: bind_err_InlE dest: unpack_h_error Cons.IH)
  qed
qed

text \<open>
  C10. When the last four characters of the file name are not \<open>.wav\<close>, \<open>load_audio\<close>
  fails with the assertion \<open>Only .WAV files are supported\<close>, whatever the file system
  holds under that name, and only then. This error is different from the two the
  specification calls UnsupportedFormat: the container that is not recognized
  (\<open>WaveError\<close>) and the sample width other than 16 bits (the second assertion).
\<close>

theorem load_audio_suffix_assertion:
  "(drop (length filename - 4) filename \<noteq> ''.wav'' \<longrightarrow>
      load_audio fs filename = Inl (AssertionError ''Only .WAV files are supported''))
   \<and> (drop (length filename - 4) filename = ''.wav'' \<longrightarrow>
      load_audio fs filename \<noteq> Inl (AssertionError ''Only .WAV files are supported''))
   \<and> (drop (length filename - 4) filename = ''.wav'' \<and> fs filename = Some (OtherFile bs) \<longrightarrow>
      load_audio fs filename = Inl WaveError)
   \<and> (drop (length filename - 4) filename = ''.wav'' \<and> fs filename = Some (WaveFile f)
        \<and> 0 < nchannels f \<and> 0 < sampwidth f \<and> sampwidth f \<noteq> 2 \<longrightarrow>
      load_audio fs filename = Inl (AssertionError ''Only 16-bit .WAV files are supported''))
   \<and> AssertionError ''Only .WAV files are supported'' \<noteq> WaveError
   \<and> AssertionError ''Only .WAV files are supported''
       \<noteq> AssertionError ''Only 16-bit .WAV files are supported''"
proof -
  have bad: "load_audio fs filename = Inl (AssertionError ''Only .WAV files are supported'')"
    if "drop (length filename - 4) filename \<noteq> ''.wav''"
    using that by (simp add: load_audio_def)
  have good: "load_audio fs filename \<noteq> Inl (AssertionError ''Only .WAV files are supported'')"
    if ok: "drop (length filename - 4) filename = ''.wav''"
  proof
    assume "load_audio fs filename = Inl (AssertionError ''Only .WAV files are supported'')"
    with ok have "bind_err (wave_open_read fs filename) (\<lambda>f.
        let chan = nchannels f; bd = sampwidth f; soundrate = framerate f;
            count = length (frames f) div (chan * bd)
        in if bd \<noteq> 2 then Inl (AssertionError ''Only 16-bit .WAV files are supported'')
           else bind_err (read_frames chan (chan * bd) (py_range count) (frames f) ([], []))
             (\<lambda>(l, r). Inr \<lparr>rate = soundrate, left = map decode_sample l,
                               right = map decode_sample r\<rparr>))
        = Inl (AssertionError ''Only .WAV files are supported'')"
      by (simp add: load_audio_def)
    then show False
    proof (cases rule: bind_err_InlE)
      case 1
      then show False
        by (auto simp: wave_open_read_def split: option.splits stored_file.splits if_splits)
    next
      case (2 f)
      show False
      proof (cases "sampwidth f = 2")
        case True
        with 2(2) show False
          by (auto simp: Let_def elim!: bind_err_InlE dest: read_frames_error)
      next
        case False
        with 2(2) show False by (simp add: Let_def)
      qed
    qed
  qed
  have other: "load_audio fs filename = Inl WaveError"
    if "drop (length filename - 4) filename = ''.wav'' \<and> fs filename = Some (OtherFile bs)"
    using that by (simp add: load_audio_def wave_open_read_def)
  have depth: "load_audio fs filename = Inl (AssertionError ''Only 16-bit .WAV files are supported'')"
    if "drop (length filename - 4) filename = ''.wav'' \<and> fs filename = Some (WaveFile f)
        \<and> 0 < nchannels f \<and> 0 < sampwidth f \<and> sampwidth f \<noteq> 2"
    using that by (simp add: load_audio_def wave_open_read_def Let_def)
  from bad good other depth show ?thesis by simp
qed

theorem load_audio_suffix_assertion_witness:
  "load_audio [''song.mp3'' \<mapsto> WaveFile \<lparr>nchannels = 2, sampwidth = 2, framerate = 8000,
        frames = [255, 31, 1, 224]\<rparr>] ''song.mp3''
     = Inl (AssertionError ''Only .WAV files are supported'')
   \<and> load_audio Map.empty ''wav'' = Inl (AssertionError ''Only .WAV files are supported'')
   \<and> load_audio Map.empty ''a.wav'' \<noteq> Inl (AssertionError ''Only .WAV files are supported'')
   \<and> load_audio [''a.wav'' \<mapsto> OtherFile [0, 1]] ''a.wav'' = Inl WaveError
   \<and> load_audio [''a.wav'' \<mapsto> WaveFile \<lparr>nchannels = 2, sampwidth = 1, framerate = 8000,
        frames = [0, 1]\<rparr>] ''a.wav''
     = Inl (AssertionError ''Only 16-bit .WAV files are supported'')"
  using load_audio_suffix_assertion [of "''song.mp3''"
      "[''song.mp3'' \<mapsto> WaveFile \<lparr>nchannels = 2, sampwidth = 2, framerate = 8000,
        frames = [255, 31, 1, 224]\<rparr>]"]
    load_audio_suffix_assertion [of "''wav''" Map.empty]
    load_audio_suffix_assertion [of "''a.wav''" Map.empty]
    load_audio_suffix_assertion [of "''a.wav''" "[''a.wav'' \<mapsto> OtherFile [0, 1]]" "[0, 1]"]
    load_audio_suffix_assertion [of "''a.wav''"
      "[''a.wav'' \<mapsto> WaveFile \<lparr>nchannels = 2, sampwidth = 1, framerate = 8000, frames = [0, 1]\<rparr>]"
      bs "\<lparr>nchannels = 2, sampwidth = 1, framerate = 8000, frames = [0, 1]\<rparr>"]
  by simp

end
